theory Spec2Isabelle
  imports
    Main
    "HOL-Library.Word"
    "HOL-Library.Signed_Division"
    "HOL-Library.Char_ord"
    "HOL-Library.List_Lexorder"
    "HOL-Library.AList"
    "HOL-Library.Sublist"
begin

section \<open>Open/R: LinkMonitor (openr/link-monitor/LinkMonitor.cpp)\<close>

subsection \<open>RTT to metric\<close>

text \<open>
  \<^verbatim>\<open>int32_t getRttMetric(int64_t rttUs) { return std::max((int)(rttUs / 100), (int)1); }\<close>
  The division is the truncating division of C++ on \<open>int64_t\<close>; the cast \<open>(int)\<close> keeps
  the low 32 bits (two's complement narrowing, as the compilers do and C++20 requires);
  \<open>std::max(a, b)\<close> is \<open>(a < b) ? b : a\<close> on signed values.
\<close>

definition getRttMetric :: "64 word \<Rightarrow> 32 word" where
  "getRttMetric rttUs =
     (let q64 = (word_of_int (sint rttUs sdiv 100) :: 64 word);
          a = (scast q64 :: 32 word);
          b = (1 :: 32 word)
      in if a <s b then b else a)"

subsection \<open>Data held by LinkMonitor\<close>

text \<open>\<open>thrift::PeerSpec\<close>, as built in \<open>neighborUpEvent\<close>.\<close>

record PeerSpec =
  pubUrl :: string
  cmdUrl :: string
  supportFloodOptimization :: bool

text \<open>\<open>thrift::Adjacency\<close>, with the fields \<open>createThriftAdjacency\<close> is given.\<close>

record Adjacency =
  otherNodeName :: string
  ifName :: string
  nextHopV6 :: string
  nextHopV4 :: string
  metric :: "32 word"
  adjLabel :: "32 word"
  isOverloaded :: bool
  rtt :: "32 word"
  timestamp :: "64 word"
  weight :: "64 word"
  otherIfName :: string

text \<open>
  \<open>AdjacencyKey\<close> is the pair (remote node name, local interface name);
  \<open>AdjacencyValue\<close> is what \<open>adjacencies_\<close> stores for it.
\<close>

type_synonym AdjacencyKey = "string \<times> string"

record AdjacencyValue =
  peerSpec :: PeerSpec
  adjacency :: Adjacency
  isRestarting :: bool
  area :: string

text \<open>\<open>thrift::AdjKey\<close>, the key of \<open>adjMetricOverrides\<close>.\<close>

record AdjKey =
  adjKey_nodeName :: string
  adjKey_ifName :: string

text \<open>\<open>thrift::LinkMonitorConfig\<close>, the persisted operator configuration.\<close>

record LinkMonitorConfig =
  cfg_nodeLabel :: "32 word"
  cfg_isOverloaded :: bool
  overloadedLinks :: "string set"
  linkMetricOverrides :: "string \<rightharpoonup> 32 word"
  adjMetricOverrides :: "AdjKey \<rightharpoonup> 32 word"

text \<open>\<open>thrift::AdjacencyDatabase\<close>, the value published under \<open>adj:<node>\<close>.\<close>

record AdjacencyDatabase =
  thisNodeName :: string
  db_isOverloaded :: bool
  db_nodeLabel :: "32 word"
  db_area :: string
  db_adjacencies :: "Adjacency list"
  perfEvents :: "(string \<times> string) list option"

text \<open>
  The attributes of \<open>InterfaceEntry\<close> (InterfaceEntry.h); LinkMonitor's override
  commands only ask whether an interface name is a key of \<open>interfaces_\<close>.
\<close>

record InterfaceEntry =
  ie_ifName :: string
  ie_ifIndex :: int
  ie_isUp :: bool
  ie_weight :: "64 word"

text \<open>Calls made on the KvStore client, in the order they are made.\<close>

datatype KvStoreCmd =
    DelPeers string "string list"
  | AddPeers string "(string \<times> PeerSpec) list"
  | PersistKey string string AdjacencyDatabase

text \<open>
  The part of LinkMonitor's state the operations below read and write; the member
  \<open>x_\<close> of the class is the field \<open>lm_x\<close>. An
  \<open>unordered_map\<close> that is iterated is an association list with distinct keys, in some
  iteration order; the effects on the KvStore client, the config store and the throttle
  are fields of the state.
\<close>

record LinkMonitor =
  lm_nodeId :: string
  lm_adjacencyDbMarker :: string
  lm_enablePerfMeasurement :: bool
  lm_adjHoldUntilTimePoint :: int
  lm_areas :: "string list"
  lm_interfaces :: "string \<rightharpoonup> InterfaceEntry"
  lm_adjacencies :: "(AdjacencyKey \<times> AdjacencyValue) list"
  lm_peers :: "string \<rightharpoonup> (string \<times> PeerSpec) list"
  lm_config :: LinkMonitorConfig
  lm_kvStoreClient :: "KvStoreCmd list"
  lm_configStore :: "LinkMonitorConfig list"
  lm_advertiseAdjacenciesThrottled :: bool
  advertise_adjacencies_counter :: nat

datatype LMError = OutOfRange | CheckFailed

subsection \<open>KvStore peers from adjacencies\<close>

text \<open>\<open>unordered_map::emplace\<close>: nothing happens when the key is already there.\<close>

definition emplace :: "'k \<Rightarrow> 'v \<Rightarrow> ('k \<times> 'v) list \<Rightarrow> ('k \<times> 'v) list" where
  "emplace k v m = (if k \<in> fst ` set m then m else m @ [(k, v)])"

text \<open>
  First loop of \<open>LinkMonitor::getPeersFromAdjacencies\<close>: for every adjacency of the
  area that is not restarting, remember the smallest interface name per neighbor.
  \<open>std::string\<close>'s \<open>operator>\<close> is the lexicographic order on unsigned bytes.
\<close>

fun neighborToIfaceLoop ::
  "(AdjacencyKey \<times> AdjacencyValue) list \<Rightarrow> string \<Rightarrow> (string \<times> string) list
     \<Rightarrow> (string \<times> string) list" where
  "neighborToIfaceLoop [] a neighborToIface = neighborToIface"
| "neighborToIfaceLoop (adjKv # rest) a neighborToIface =
     (if area (snd adjKv) \<noteq> a \<or> isRestarting (snd adjKv)
      then neighborToIfaceLoop rest a neighborToIface
      else
        (let nodeName = fst (fst adjKv); iface = snd (fst adjKv) in
         case map_of neighborToIface nodeName of
           None \<Rightarrow> neighborToIfaceLoop rest a (emplace nodeName iface neighborToIface)
         | Some cur \<Rightarrow>
             if cur > iface
             then neighborToIfaceLoop rest a (AList.update nodeName iface neighborToIface)
             else neighborToIfaceLoop rest a neighborToIface))"

text \<open>
  Second loop: \<open>peers.emplace(kv.first, adjacencies.at(kv).peerSpec)\<close>, where
  \<open>at\<close> throws \<open>std::out_of_range\<close> on a missing key.
\<close>

fun peersLoop ::
  "(AdjacencyKey \<times> AdjacencyValue) list \<Rightarrow> (string \<times> string) list
     \<Rightarrow> (string \<times> PeerSpec) list \<Rightarrow> LMError + (string \<times> PeerSpec) list" where
  "peersLoop adjs [] peers = Inr peers"
| "peersLoop adjs (kv # rest) peers =
     (case map_of adjs kv of
        None \<Rightarrow> Inl OutOfRange
      | Some av \<Rightarrow> peersLoop adjs rest (emplace (fst kv) (peerSpec av) peers))"

definition getPeersFromAdjacencies ::
  "(AdjacencyKey \<times> AdjacencyValue) list \<Rightarrow> string \<Rightarrow> LMError + (string \<times> PeerSpec) list" where
  "getPeersFromAdjacencies adjs a = peersLoop adjs (neighborToIfaceLoop adjs a []) []"

subsection \<open>Advertising KvStore peers\<close>

text \<open>
  The loop of \<open>advertiseKvStorePeers\<close> over \<open>upPeers\<close>:
  \<open>CHECK(peers_.at(area).count(name))\<close> aborts when the peer is not in the new peer
  list; a peer already in \<open>toAddPeers\<close>, or whose spec differs from the current one,
  is skipped.
\<close>

fun upPeersLoop ::
  "(string \<times> PeerSpec) list \<Rightarrow> (string \<times> PeerSpec) list \<Rightarrow> (string \<times> PeerSpec) list
     \<Rightarrow> LMError + (string \<times> PeerSpec) list" where
  "upPeersLoop newPeers [] toAddPeers = Inr toAddPeers"
| "upPeersLoop newPeers (upPeer # rest) toAddPeers =
     (case map_of newPeers (fst upPeer) of
        None \<Rightarrow> Inl CheckFailed
      | Some cur \<Rightarrow>
          if fst upPeer \<in> fst ` set toAddPeers then upPeersLoop newPeers rest toAddPeers
          else if snd upPeer \<noteq> cur then upPeersLoop newPeers rest toAddPeers
          else upPeersLoop newPeers rest (emplace (fst upPeer) (snd upPeer) toAddPeers))"

text \<open>
  \<open>LinkMonitor::advertiseKvStorePeers(area, upPeers)\<close>. \<open>peers_[area]\<close> is an empty
  map when the area has no entry yet. The calls on the KvStore client are recorded in
  \<open>kvStoreClient_\<close> and are taken to succeed (the client is another component; a
  failed call ends the process by \<open>CHECK(ret)\<close>); an exception of
  \<open>getPeersFromAdjacencies\<close> and a failed \<open>CHECK\<close> on \<open>upPeers\<close> end the call
  with an error.
\<close>

definition advertiseKvStorePeers ::
  "string \<Rightarrow> (string \<times> PeerSpec) list \<Rightarrow> LinkMonitor \<Rightarrow> LMError + LinkMonitor" where
  "advertiseKvStorePeers a upPeers s =
     (let oldPeers = (case lm_peers s a of None \<Rightarrow> [] | Some ps \<Rightarrow> ps) in
      case getPeersFromAdjacencies (lm_adjacencies s) a of
        Inl e \<Rightarrow> Inl e
      | Inr newPeers \<Rightarrow>
          (let s1 = s\<lparr>lm_peers := (lm_peers s)(a \<mapsto> newPeers)\<rparr>;
               toDelPeers = map fst (filter (\<lambda>oldKv. fst oldKv \<notin> fst ` set newPeers) oldPeers);
               s2 = (if length toDelPeers > 0
                     then s1\<lparr>lm_kvStoreClient := lm_kvStoreClient s1 @ [DelPeers a toDelPeers]\<rparr>
                     else s1);
               toAddPeers = filter (\<lambda>newKv. map_of oldPeers (fst newKv) \<noteq> Some (snd newKv)) newPeers
           in case upPeersLoop newPeers upPeers toAddPeers of
                Inl e \<Rightarrow> Inl e
              | Inr toAddPeers' \<Rightarrow>
                  Inr (if length toAddPeers' > 0
                       then s2\<lparr>lm_kvStoreClient := lm_kvStoreClient s2 @ [AddPeers a toAddPeers']\<rparr>
                       else s2)))"

text \<open>
  \<open>LinkMonitor::neighborRestartingEvent\<close>: the adjacency stays in \<open>adjacencies_\<close>
  with its restarting bit set, and the peers of the area are advertised again (with no
  \<open>upPeers\<close>).
\<close>

definition neighborRestartingEvent ::
  "string \<Rightarrow> string \<Rightarrow> string \<Rightarrow> LinkMonitor \<Rightarrow> LMError + LinkMonitor" where
  "neighborRestartingEvent remoteNodeName ifname a s =
     (let adjId = (remoteNodeName, ifname);
          s1 = (case map_of (lm_adjacencies s) adjId of
                  None \<Rightarrow> s
                | Some av \<Rightarrow>
                    s\<lparr>lm_adjacencies :=
                        AList.update adjId (av\<lparr>isRestarting := True\<rparr>) (lm_adjacencies s)\<rparr>)
      in advertiseKvStorePeers a [] s1)"

subsection \<open>Advertising adjacencies\<close>

text \<open>
  The loop of \<open>advertiseAdjacencies(area)\<close> over \<open>adjacencies_\<close>: adjacencies of other
  areas are skipped; the link overload bit and the metric overrides of the config are
  applied to a copy of the adjacency (\<open>folly::get_default\<close> keeps the metric when there
  is no override).
\<close>

fun adjDbLoop :: "LinkMonitorConfig \<Rightarrow> string \<Rightarrow> (AdjacencyKey \<times> AdjacencyValue) list \<Rightarrow> Adjacency list" where
  "adjDbLoop cfg a [] = []"
| "adjDbLoop cfg a (adjKv # rest) =
     (if area (snd adjKv) \<noteq> a then adjDbLoop cfg a rest
      else
        (let adj = adjacency (snd adjKv);
             adj1 = adj\<lparr>isOverloaded := (ifName adj \<in> overloadedLinks cfg)\<rparr>;
             adj2 = adj1\<lparr>metric := (case linkMetricOverrides cfg (ifName adj1) of
                                       None \<Rightarrow> metric adj1 | Some m \<Rightarrow> m)\<rparr>;
             adjKey = \<lparr>adjKey_nodeName = otherNodeName adj2, adjKey_ifName = ifName adj2\<rparr>;
             adj3 = adj2\<lparr>metric := (case adjMetricOverrides cfg adjKey of
                                       None \<Rightarrow> metric adj2 | Some m \<Rightarrow> m)\<rparr>
         in adj3 # adjDbLoop cfg a rest))"

text \<open>
  \<open>LinkMonitor::advertiseAdjacencies(area)\<close>, with the reading of
  \<open>steady_clock::now()\<close> as the argument \<open>now\<close>. Before the hold-until time point the
  call returns at once. Otherwise the adjacency database is written to KvStore
  (\<open>persistKey\<close>, recorded as \<open>PersistKey key area database\<close>; the serialised
  string is the database itself and the ttl is the constant \<open>ttlKeyInKvStore_\<close>),
  the counter is bumped, the config is stored and the throttle is cancelled.
\<close>

definition advertiseAdjacencies :: "int \<Rightarrow> string \<Rightarrow> LinkMonitor \<Rightarrow> LinkMonitor" where
  "advertiseAdjacencies now a s =
     (if now < lm_adjHoldUntilTimePoint s then s
      else
        (let adjDb = \<lparr>thisNodeName = lm_nodeId s,
                      db_isOverloaded = cfg_isOverloaded (lm_config s),
                      db_nodeLabel = cfg_nodeLabel (lm_config s),
                      db_area = a,
                      db_adjacencies = adjDbLoop (lm_config s) a (lm_adjacencies s),
                      perfEvents = (if lm_enablePerfMeasurement s
                                    then Some [(lm_nodeId s, ''ADJ_DB_UPDATED'')] else None)\<rparr>;
             keyName = lm_adjacencyDbMarker s @ lm_nodeId s
         in s\<lparr>lm_kvStoreClient := lm_kvStoreClient s @ [PersistKey keyName a adjDb],
              advertise_adjacencies_counter := advertise_adjacencies_counter s + 1,
              lm_configStore := lm_configStore s @ [lm_config s],
              lm_advertiseAdjacenciesThrottled := False\<rparr>))"

text \<open>
  \<open>LinkMonitor::advertiseAdjacencies()\<close>: one call per area of \<open>areas_\<close>; the clock
  is read anew in each of them, \<open>clock i\<close> being the reading of the i-th call.
\<close>

fun advertiseAdjacenciesAreas :: "(nat \<Rightarrow> int) \<Rightarrow> nat \<Rightarrow> string list \<Rightarrow> LinkMonitor \<Rightarrow> LinkMonitor" where
  "advertiseAdjacenciesAreas clock i [] s = s"
| "advertiseAdjacenciesAreas clock i (a # rest) s =
     advertiseAdjacenciesAreas clock (Suc i) rest (advertiseAdjacencies (clock i) a s)"

definition advertiseAdjacenciesAll :: "(nat \<Rightarrow> int) \<Rightarrow> LinkMonitor \<Rightarrow> LinkMonitor" where
  "advertiseAdjacenciesAll clock s = advertiseAdjacenciesAreas clock 0 (lm_areas s) s"

subsection \<open>Operator overrides\<close>

text \<open>
  The three commands complete their promise with \<open>p.setValue()\<close> on every path; the
  result of the future is \<open>Inr ()\<close> for a value and \<open>Inl\<close> for an exception.
  \<open>advertiseAdjacenciesThrottled_->operator()()\<close> arms the throttle.
\<close>

definition setInterfaceOverload ::
  "string \<Rightarrow> bool \<Rightarrow> LinkMonitor \<Rightarrow> (string + unit) \<times> LinkMonitor" where
  "setInterfaceOverload interfaceName isOverloaded' s =
     (if lm_interfaces s interfaceName = None then (Inr (), s)
      else if isOverloaded' \<and> interfaceName \<in> overloadedLinks (lm_config s) then (Inr (), s)
      else if \<not> isOverloaded' \<and> interfaceName \<notin> overloadedLinks (lm_config s) then (Inr (), s)
      else
        (let cfg = (if isOverloaded'
                    then (lm_config s)\<lparr>overloadedLinks := insert interfaceName (overloadedLinks (lm_config s))\<rparr>
                    else (lm_config s)\<lparr>overloadedLinks := overloadedLinks (lm_config s) - {interfaceName}\<rparr>)
         in (Inr (), s\<lparr>lm_config := cfg, lm_advertiseAdjacenciesThrottled := True\<rparr>)))"

definition setLinkMetric ::
  "string \<Rightarrow> 32 word option \<Rightarrow> LinkMonitor \<Rightarrow> (string + unit) \<times> LinkMonitor" where
  "setLinkMetric interfaceName overrideMetric s =
     (if lm_interfaces s interfaceName = None then (Inr (), s)
      else if overrideMetric \<noteq> None \<and> linkMetricOverrides (lm_config s) interfaceName \<noteq> None
              \<and> linkMetricOverrides (lm_config s) interfaceName = overrideMetric then (Inr (), s)
      else if overrideMetric = None \<and> linkMetricOverrides (lm_config s) interfaceName = None
      then (Inr (), s)
      else
        (let cfg = (case overrideMetric of
                      Some m \<Rightarrow> (lm_config s)\<lparr>linkMetricOverrides :=
                                    (linkMetricOverrides (lm_config s))(interfaceName \<mapsto> m)\<rparr>
                    | None \<Rightarrow> (lm_config s)\<lparr>linkMetricOverrides :=
                                    (linkMetricOverrides (lm_config s))(interfaceName := None)\<rparr>)
         in (Inr (), s\<lparr>lm_config := cfg, lm_advertiseAdjacenciesThrottled := True\<rparr>)))"

definition setAdjacencyMetric ::
  "string \<Rightarrow> string \<Rightarrow> 32 word option \<Rightarrow> LinkMonitor \<Rightarrow> (string + unit) \<times> LinkMonitor" where
  "setAdjacencyMetric interfaceName adjNodeName overrideMetric s =
     (let adjKey = \<lparr>adjKey_nodeName = adjNodeName, adjKey_ifName = interfaceName\<rparr> in
      if map_of (lm_adjacencies s) (adjNodeName, interfaceName) = None then (Inr (), s)
      else if overrideMetric \<noteq> None \<and> adjMetricOverrides (lm_config s) adjKey \<noteq> None
              \<and> adjMetricOverrides (lm_config s) adjKey = overrideMetric then (Inr (), s)
      else if overrideMetric = None \<and> adjMetricOverrides (lm_config s) adjKey = None
      then (Inr (), s)
      else
        (let cfg = (case overrideMetric of
                      Some m \<Rightarrow> (lm_config s)\<lparr>adjMetricOverrides :=
                                    (adjMetricOverrides (lm_config s))(adjKey \<mapsto> m)\<rparr>
                    | None \<Rightarrow> (lm_config s)\<lparr>adjMetricOverrides :=
                                    (adjMetricOverrides (lm_config s))(adjKey := None)\<rparr>)
         in (Inr (), s\<lparr>lm_config := cfg, lm_advertiseAdjacenciesThrottled := True\<rparr>)))"

subsection \<open>Notions used to state the properties of LinkMonitor\<close>

text \<open>
  The interfaces of the adjacencies to neighbor \<open>n\<close> that are in area \<open>a\<close> and not
  restarting, and the interfaces of all adjacencies to \<open>n\<close>.
\<close>

definition eligibleIfaces :: "(AdjacencyKey \<times> AdjacencyValue) list \<Rightarrow> string \<Rightarrow> string \<Rightarrow> string set" where
  "eligibleIfaces adjs a n =
     set (map (\<lambda>kv. snd (fst kv))
            (filter (\<lambda>kv. fst (fst kv) = n \<and> area (snd kv) = a \<and> \<not> isRestarting (snd kv)) adjs))"

definition allIfaces :: "(AdjacencyKey \<times> AdjacencyValue) list \<Rightarrow> string \<Rightarrow> string set" where
  "allIfaces adjs n = set (map (\<lambda>kv. snd (fst kv)) (filter (\<lambda>kv. fst (fst kv) = n) adjs))"


text \<open>The least element of a current value (if any) and a finite set of candidates.\<close>

definition leastOf :: "'a::linorder option \<Rightarrow> 'a set \<Rightarrow> 'a option" where
  "leastOf cur E = (if set_option cur \<union> E = {} then None else Some (Min (set_option cur \<union> E)))"

text \<open>A sequence of calls of \<open>advertiseAdjacencies(area)\<close>, each with its clock reading.\<close>

fun advertiseCalls :: "(int \<times> string) list \<Rightarrow> LinkMonitor \<Rightarrow> LinkMonitor" where
  "advertiseCalls [] s = s"
| "advertiseCalls (c # cs) s = advertiseCalls cs (advertiseAdjacencies (fst c) (snd c) s)"

text \<open>
  Example data, after the test \<open>LinkMonitor.getPeersFromAdjacencies\<close>
  (LinkMonitorTest.cpp): two neighbors, two interfaces each; the adjacency to
  \<open>node1\<close> over \<open>iface0\<close> is restarting.
\<close>

definition peerSpecEx :: "string \<Rightarrow> PeerSpec" where
  "peerSpecEx ifc =
     \<lparr>pubUrl = ''tcp://[fe80::2%'' @ ifc @ '']:10001'',
      cmdUrl = ''tcp://[fe80::2%'' @ ifc @ '']:10002'',
      supportFloodOptimization = False\<rparr>"

definition adjValueEx :: "string \<Rightarrow> string \<Rightarrow> bool \<Rightarrow> string \<Rightarrow> AdjacencyValue" where
  "adjValueEx n ifc r a =
     \<lparr>peerSpec = peerSpecEx ifc,
      adjacency = \<lparr>otherNodeName = n, ifName = ifc, nextHopV6 = ''fe80::2'', nextHopV4 = ''10.0.0.2'',
                   metric = 1, adjLabel = 0, isOverloaded = False, rtt = 0, timestamp = 0,
                   weight = 1, otherIfName = ''eth0''\<rparr>,
      isRestarting = r,
      area = a\<rparr>"

definition adjacenciesEx :: "(AdjacencyKey \<times> AdjacencyValue) list" where
  "adjacenciesEx =
     [((''node1'', ''iface1''), adjValueEx ''node1'' ''iface1'' False ''0''),
      ((''node2'', ''iface2''), adjValueEx ''node2'' ''iface2'' False ''0''),
      ((''node2'', ''iface3''), adjValueEx ''node2'' ''iface3'' False ''0''),
      ((''node1'', ''iface0''), adjValueEx ''node1'' ''iface0'' True ''0'')]"

definition linkMonitorEx :: LinkMonitor where
  "linkMonitorEx =
     \<lparr>lm_nodeId = ''node-1'', lm_adjacencyDbMarker = ''adj:'', lm_enablePerfMeasurement = False,
      lm_adjHoldUntilTimePoint = 1000, lm_areas = [''0''],
      lm_interfaces = [''iface1'' \<mapsto> \<lparr>ie_ifName = ''iface1'', ie_ifIndex = 1, ie_isUp = True, ie_weight = 1\<rparr>],
      lm_adjacencies = adjacenciesEx, lm_peers = Map.empty,
      lm_config = \<lparr>cfg_nodeLabel = 0, cfg_isOverloaded = False, overloadedLinks = {},
                    linkMetricOverrides = Map.empty, adjMetricOverrides = Map.empty\<rparr>,
      lm_kvStoreClient = [], lm_configStore = [], lm_advertiseAdjacenciesThrottled = False,
      advertise_adjacencies_counter = 0\<rparr>"

section \<open>Open/R: messaging queues (openr/messaging/Queue.h, Queue-inl.h)\<close>

subsection \<open>RWQueue\<close>

datatype QueueError = QUEUE_CLOSED

text \<open>
  \<open>struct PendingRead { Baton baton; Optional<ValueType> data; }\<close>: \<open>baton\<close> says
  whether the baton has been posted.
\<close>

record 'a PendingRead =
  baton :: bool
  data :: "'a option"

text \<open>
  The state of an \<open>RWQueue\<close>; every operation holds \<open>lock_\<close> for its whole critical
  section, so each is one atomic step. The members \<open>closed_\<close>, \<open>pendingReads_\<close> and
  \<open>queue_\<close> are the fields \<open>q_closed\<close>, \<open>q_pendingReads\<close> and \<open>q_queue\<close>.
  \<open>pendingReads_\<close> holds references to the \<open>PendingRead\<close> objects of the readers
  that wait; a reference is the number of the reader that owns the object, and
  \<open>q_store\<close> maps it to the object.
\<close>

record 'a RWQueue =
  q_closed :: bool
  q_pendingReads :: "nat list"
  q_queue :: "'a list"
  q_store :: "nat \<Rightarrow> 'a PendingRead"

definition newPendingRead :: "'a PendingRead" where
  "newPendingRead = \<lparr>baton = False, data = None\<rparr>"

text \<open>The constructed queue: open, nothing pending, nothing enqueued.\<close>

definition newRWQueue :: "'a RWQueue" where
  "newRWQueue = \<lparr>q_closed = False, q_pendingReads = [], q_queue = [],
                  q_store = (\<lambda>r. newPendingRead)\<rparr>"

text \<open>
  \<open>RWQueue::push\<close>: refused on a closed queue; handed to the first pending read
  (its data assigned, its baton posted) when there is one; enqueued otherwise.
\<close>

definition push :: "'a \<Rightarrow> 'a RWQueue \<Rightarrow> bool \<times> 'a RWQueue" where
  "push val q =
     (if q_closed q then (False, q)
      else if length (q_pendingReads q) \<noteq> 0 then
        (let r = hd (q_pendingReads q);
             pendingRead = (q_store q r)\<lparr>data := Some val, baton := True\<rparr>
         in (True, q\<lparr>q_store := (q_store q)(r := pendingRead),
                     q_pendingReads := tl (q_pendingReads q)\<rparr>))
      else (True, q\<lparr>q_queue := q_queue q @ [val]\<rparr>))"

text \<open>
  \<open>RWQueue::getAnyImpl(pendingRead)\<close>, for the \<open>PendingRead\<close> of reader \<open>r\<close>: the
  result is the returned flag, the reader's object and the queue. Enqueuing the read
  request shares the object through \<open>q_store\<close>.
\<close>

definition getAnyImpl ::
  "nat \<Rightarrow> 'a PendingRead \<Rightarrow> 'a RWQueue \<Rightarrow> bool \<times> 'a PendingRead \<times> 'a RWQueue" where
  "getAnyImpl r pendingRead q =
     (if q_closed q then (False, pendingRead, q)
      else if length (q_queue q) \<noteq> 0 then
        (True, pendingRead\<lparr>data := Some (hd (q_queue q))\<rparr>, q\<lparr>q_queue := tl (q_queue q)\<rparr>)
      else
        (True, pendingRead,
         q\<lparr>q_pendingReads := q_pendingReads q @ [r], q_store := (q_store q)(r := pendingRead)\<rparr>))"

text \<open>
  What \<open>get\<close> returns once the wait on the baton of reader \<open>r\<close> is over: the data
  if there is some, \<open>QUEUE_CLOSED\<close> otherwise; \<open>None\<close> while the baton is not posted
  (the reader is still blocked).
\<close>

definition getResume :: "nat \<Rightarrow> 'a RWQueue \<Rightarrow> (QueueError + 'a) option" where
  "getResume r q =
     (let pendingRead = q_store q r in
      if baton pendingRead then
        (case data pendingRead of Some v \<Rightarrow> Some (Inr v) | None \<Rightarrow> Some (Inl QUEUE_CLOSED))
      else None)"

text \<open>
  \<open>RWQueue::get\<close> called by reader \<open>r\<close>: \<open>QUEUE_CLOSED\<close> when \<open>getAnyImpl\<close>
  fails; after an immediate read the reader posts its own baton, so the wait ends at once
  and the data is returned; otherwise the reader blocks (\<open>None\<close>) and its call returns
  \<open>getResume\<close> of a later state.
\<close>

definition get :: "nat \<Rightarrow> 'a RWQueue \<Rightarrow> (QueueError + 'a) option \<times> 'a RWQueue" where
  "get r q =
     (case getAnyImpl r newPendingRead q of
        (False, pendingRead, q') \<Rightarrow> (Some (Inl QUEUE_CLOSED), q')
      | (True, pendingRead, q') \<Rightarrow>
          (case data pendingRead of
             Some v \<Rightarrow> (Some (Inr v), q')
           | None \<Rightarrow> (getResume r q', q')))"

text \<open>The loop of \<open>close\<close> over \<open>pendingReads_\<close>: post the baton, pop the front.\<close>

fun postAll :: "nat list \<Rightarrow> (nat \<Rightarrow> 'a PendingRead) \<Rightarrow> (nat \<Rightarrow> 'a PendingRead)" where
  "postAll [] st = st"
| "postAll (r # rs) st = postAll rs (st(r := (st r)\<lparr>baton := True\<rparr>))"

text \<open>
  \<open>RWQueue::close\<close>. The \<open>assert\<close> that one of \<open>pendingReads_\<close> and \<open>queue_\<close> is
  empty is the invariant \<open>rwq_inv\<close> below and is not a branch of the model.
\<close>

definition close :: "'a RWQueue \<Rightarrow> 'a RWQueue" where
  "close q =
     (if \<not> q_closed q
      then q\<lparr>q_closed := True,
             q_store := postAll (q_pendingReads q) (q_store q),
             q_pendingReads := [],
             q_queue := []\<rparr>
      else q)"

subsection \<open>Runs of an RWQueue\<close>

text \<open>
  The calls made on a queue by its writers and readers. A reader that is blocked in
  \<open>get\<close> makes no other call before that one returns, so a \<open>Get\<close> of a reader that
  is among the pending reads is not a step.
\<close>

datatype 'a QOp = Push 'a | Get nat | Close

text \<open>
  The readers whose wait ends between \<open>q\<close> and \<open>q'\<close>, each with what its \<open>get\<close>
  returns.
\<close>

definition woken :: "'a RWQueue \<Rightarrow> 'a RWQueue \<Rightarrow> (nat \<times> (QueueError + 'a)) list" where
  "woken q q' =
     concat (map (\<lambda>r. case getResume r q' of Some res \<Rightarrow> [(r, res)] | None \<Rightarrow> [])
                 (q_pendingReads q))"

text \<open>
  One call: the \<open>get\<close> calls that return because of it (with the reader and the returned
  value, in the order of return) and the next state.
\<close>

fun qstep :: "'a QOp \<Rightarrow> 'a RWQueue \<Rightarrow> (nat \<times> (QueueError + 'a)) list \<times> 'a RWQueue" where
  "qstep (Push v) q = (let q' = snd (push v q) in (woken q q', q'))"
| "qstep (Get r) q =
     (if r \<in> set (q_pendingReads q) then ([], q)
      else case get r q of
             (Some res, q') \<Rightarrow> ([(r, res)], q')
           | (None, q') \<Rightarrow> ([], q'))"
| "qstep Close q = (let q' = close q in (woken q q', q'))"

fun qrun :: "'a QOp list \<Rightarrow> 'a RWQueue \<Rightarrow> (nat \<times> (QueueError + 'a)) list \<times> 'a RWQueue" where
  "qrun [] q = ([], q)"
| "qrun (op # ops) q =
     (let (rs, q') = qstep op q; (rs', q'') = qrun ops q' in (rs @ rs', q''))"

text \<open>The values among returned results, and those returned to reader \<open>r\<close>.\<close>

definition valuesOf :: "(nat \<times> (QueueError + 'a)) list \<Rightarrow> 'a list" where
  "valuesOf rs = concat (map (\<lambda>x. case snd x of Inr v \<Rightarrow> [v] | Inl e \<Rightarrow> []) rs)"

definition received :: "nat \<Rightarrow> (nat \<times> (QueueError + 'a)) list \<Rightarrow> 'a list" where
  "received r rs = valuesOf (filter (\<lambda>x. fst x = r) rs)"


text \<open>
  The invariant of an open queue: pending reads and pending data never coexist (the
  \<open>assert\<close> of \<open>close\<close>), no reader waits twice, and a waiting reader's object is as
  constructed.
\<close>

definition rwq_inv :: "'a RWQueue \<Rightarrow> bool" where
  "rwq_inv q \<longleftrightarrow>
     (q_pendingReads q = [] \<or> q_queue q = [])
     \<and> distinct (q_pendingReads q)
     \<and> list_all (\<lambda>r. q_store q r = newPendingRead) (q_pendingReads q)
     \<and> (q_closed q \<longrightarrow> q_pendingReads q = [] \<and> q_queue q = [])"

subsection \<open>ReplicateQueue\<close>











section \<open>Open/R: KvStore values (openr/kvstore/KvStore.h)\<close>

subsection \<open>Values and publications\<close>

text \<open>
  \<open>thrift::Value\<close>, the unit of replication: \<open>version\<close> is unsigned, \<open>ttl\<close> and
  \<open>ttlVersion\<close> are signed 64-bit integers, the payload \<open>value\<close> (the field
  \<open>body\<close> here) and the \<open>hash\<close> are optional.
\<close>

record Value =
  version :: "64 word"
  originatorId :: string
  body :: "8 word list option"
  ttl :: "64 word"
  ttlVersion :: "64 word"
  hash :: "64 word option"


subsection \<open>Comparison of values\<close>

text \<open>The last tiebreaker: the higher \<open>ttlVersion\<close> (signed) wins.\<close>

definition compareTtlVersion :: "Value \<Rightarrow> Value \<Rightarrow> int" where
  "compareTtlVersion v1 v2 =
     (if ttlVersion v1 \<noteq> ttlVersion v2
      then (if ttlVersion v2 <s ttlVersion v1 then 1 else - 1)
      else 0)"

text \<open>
  Modelled from the spec: the body of \<open>KvStore::compareValues\<close> (KvStore.cpp is not
  among the sources; KvStore.h only declares the function), after ``the winner is the
  one with the higher (version; then originator_id lexicographic; then value bytes; then
  ttl_version). If only hashes are present and versions/originators/hashes match, values
  are equal. If bodies are absent on both sides and any tiebreaker beyond version
  requires bytes, the result is unknown'', and after the header's ``return 1 if v1 is
  better, -1 if v2 is better, 0 if equal, -2 if unknown; unknown can happen if value is
  missing (only hash is provided)''. \<open>compareContent\<close> is the comparison up to the
  value bytes: version, then originator id, then the bytes; where a body is missing,
  matching hashes make the bytes tie, and otherwise the bytes would be needed and the
  result is unknown. \<open>compareValues\<close> goes on to \<open>ttlVersion\<close> when the content
  ties.
\<close>

definition compareContent :: "Value \<Rightarrow> Value \<Rightarrow> int" where
  "compareContent v1 v2 =
     (if version v1 \<noteq> version v2 then (if version v1 > version v2 then 1 else - 1)
      else if originatorId v1 \<noteq> originatorId v2
      then (if originatorId v1 > originatorId v2 then 1 else - 1)
      else
        (case (body v1, body v2) of
           (Some b1, Some b2) \<Rightarrow> if b1 \<noteq> b2 then (if b1 > b2 then 1 else - 1) else 0
         | _ \<Rightarrow> if hash v1 \<noteq> None \<and> hash v1 = hash v2 then 0 else - 2))"

definition compareValues :: "Value \<Rightarrow> Value \<Rightarrow> int" where
  "compareValues v1 v2 =
     (let c = compareContent v1 v2 in if c = 0 then compareTtlVersion v1 v2 else c)"

subsection \<open>Merging an update into the store\<close>

text \<open>
  Modelled from the spec: the body of \<open>KvStore::mergeKeyValues\<close> (KvStore.cpp is not
  among the sources), after the merge algorithm of the spec: for each incoming
  \<open>(k, v_in)\<close>: (1) if a filter rejects \<open>k\<close>, drop; (2) if there is no local value,
  accept \<open>v_in\<close>, unless its ttl is below a threshold; (3) else compare \<open>v_in\<close> with
  the local value: on \<open>+1\<close> replace it, and the key enters the outbound delta; on
  \<open>-1\<close> drop; on \<open>0\<close> with a greater \<open>ttlVersion\<close> refresh ttl and
  \<open>ttlVersion\<close> but keep the body, with no flood; on \<open>0\<close> otherwise drop; on unknown
  the full body is requested on the next sync, and neither the store nor the delta
  changes. Step (3) tells a \<open>0\<close> with a greater \<open>ttlVersion\<close> from a \<open>0\<close> without,
  so its comparison is the one up to the value bytes, \<open>compareContent\<close>, and the ttl
  version, the last component of the order, is looked at by the step itself: an incoming
  value that ties on version, originator and bytes (or on the hash, when it is a ttl
  refresh without body) and has the greater ttl version refreshes the stored value and
  does not replace it. The filter (\<open>KvStoreFilters::keyMatch\<close>) and the ttl threshold
  are arguments. The store is the map passed by reference; the result is the pair of the
  store after the merge and the returned map of updated values.
\<close>

definition mergeKeyValue ::
  "(string \<Rightarrow> Value \<Rightarrow> bool) option \<Rightarrow> 64 word \<Rightarrow> string \<times> Value
     \<Rightarrow> (string \<rightharpoonup> Value) \<times> (string \<rightharpoonup> Value) \<Rightarrow> (string \<rightharpoonup> Value) \<times> (string \<rightharpoonup> Value)" where
  "mergeKeyValue filters ttlThreshold kv st =
     (let k = fst kv; v_in = snd kv; kvStore = fst st; delta = snd st in
      if (case filters of None \<Rightarrow> False | Some keyMatch \<Rightarrow> \<not> keyMatch k v_in) then (kvStore, delta)
      else
        (case kvStore k of
           None \<Rightarrow>
             if ttl v_in <s ttlThreshold then (kvStore, delta)
             else (kvStore(k \<mapsto> v_in), delta(k \<mapsto> v_in))
         | Some v_local \<Rightarrow>
             (let c = compareContent v_in v_local in
              if c = 1 then (kvStore(k \<mapsto> v_in), delta(k \<mapsto> v_in))
              else if c = - 1 then (kvStore, delta)
              else if c = 0 then
                (if ttlVersion v_local <s ttlVersion v_in
                 then (kvStore(k \<mapsto> v_local\<lparr>ttl := ttl v_in, ttlVersion := ttlVersion v_in\<rparr>), delta)
                 else (kvStore, delta))
              else (kvStore, delta))))"

fun mergeLoop ::
  "(string \<Rightarrow> Value \<Rightarrow> bool) option \<Rightarrow> 64 word \<Rightarrow> (string \<times> Value) list
     \<Rightarrow> (string \<rightharpoonup> Value) \<times> (string \<rightharpoonup> Value) \<Rightarrow> (string \<rightharpoonup> Value) \<times> (string \<rightharpoonup> Value)" where
  "mergeLoop filters ttlThreshold [] st = st"
| "mergeLoop filters ttlThreshold (kv # rest) st =
     mergeLoop filters ttlThreshold rest (mergeKeyValue filters ttlThreshold kv st)"

definition mergeKeyValues ::
  "(string \<Rightarrow> Value \<Rightarrow> bool) option \<Rightarrow> 64 word \<Rightarrow> (string \<rightharpoonup> Value) \<Rightarrow> (string \<times> Value) list
     \<Rightarrow> (string \<rightharpoonup> Value) \<times> (string \<rightharpoonup> Value)" where
  "mergeKeyValues filters ttlThreshold kvStore update =
     mergeLoop filters ttlThreshold update (kvStore, Map.empty)"

text \<open>Example values: a full value, and the same with a higher version.\<close>

definition valueEx :: "64 word \<Rightarrow> string \<Rightarrow> 8 word list option \<Rightarrow> 64 word \<Rightarrow> Value" where
  "valueEx ver orig b tv =
     \<lparr>version = ver, originatorId = orig, body = b, ttl = 30000, ttlVersion = tv, hash = None\<rparr>"


section \<open>Open/R: control handler (openr/ctrl-server/OpenrCtrlHandler.cpp)\<close>

subsection \<open>Long poll of the adjacency keys\<close>













subsection \<open>Runs of the handler\<close>











section \<open>Open/R: Fib (openr/fib/Fib.h)\<close>

subsection \<open>Longest prefix match\<close>

text \<open>
  \<open>thrift::IpPrefix\<close>: the bytes of the address (4 for IPv4, 16 for IPv6) and the
  prefix length. A \<open>folly::CIDRNetwork\<close> is the pair of an address and a prefix
  length.
\<close>

record IpPrefix =
  prefixAddress :: "8 word list"
  prefixLength :: nat

type_synonym CIDRNetwork = "8 word list \<times> nat"

text \<open>The bits of an address, most significant first.\<close>

definition addrBits :: "8 word list \<Rightarrow> bool list" where
  "addrBits bytes = concat (map (\<lambda>w. map (bit w) [7, 6, 5, 4, 3, 2, 1, 0]) bytes)"

text \<open>
  A route prefix contains a network when both are of the same address family, the
  route's prefix length is no longer than the network's, and their leading bits agree
  over the route's prefix length.
\<close>

definition prefixContains :: "IpPrefix \<Rightarrow> CIDRNetwork \<Rightarrow> bool" where
  "prefixContains p n \<longleftrightarrow>
     length (prefixAddress p) = length (fst n)
     \<and> prefixLength p \<le> snd n
     \<and> take (prefixLength p) (addrBits (prefixAddress p)) = take (prefixLength p) (addrBits (fst n))"

text \<open>
  Modelled from the spec: the body of \<open>Fib::longestPrefixMatch\<close> (Fib.cpp is not among
  the sources; Fib.h declares the function and FibTest.cpp calls it), after ``maps a
  host address to the longest prefix in the current unicast route table'' and the
  header's ``perform longest prefix match among all prefixes in route database; return
  the matched IpPrefix if prefix matching succeed''. The route table is an
  \<open>unordered_map\<close> from prefix to route, an association list here; the loop keeps the
  longest matching prefix seen so far.
\<close>

fun longestPrefixMatchLoop ::
  "CIDRNetwork \<Rightarrow> (IpPrefix \<times> 'r) list \<Rightarrow> IpPrefix option \<Rightarrow> IpPrefix option" where
  "longestPrefixMatchLoop inputPrefix [] matchedPrefix = matchedPrefix"
| "longestPrefixMatchLoop inputPrefix (route # rest) matchedPrefix =
     (if prefixContains (fst route) inputPrefix
         \<and> (case matchedPrefix of
               None \<Rightarrow> True
             | Some m \<Rightarrow> prefixLength m < prefixLength (fst route))
      then longestPrefixMatchLoop inputPrefix rest (Some (fst route))
      else longestPrefixMatchLoop inputPrefix rest matchedPrefix)"

definition longestPrefixMatch :: "CIDRNetwork \<Rightarrow> (IpPrefix \<times> 'r) list \<Rightarrow> IpPrefix option" where
  "longestPrefixMatch inputPrefix unicastRoutes =
     longestPrefixMatchLoop inputPrefix unicastRoutes None"

text \<open>The route table of the test \<open>FibTestFixture.longestPrefixMatchTest\<close>.\<close>

definition toIpPrefix :: "8 word list \<Rightarrow> nat \<Rightarrow> IpPrefix" where
  "toIpPrefix a l = \<lparr>prefixAddress = a, prefixLength = l\<rparr>"

definition unicastRoutesEx :: "(IpPrefix \<times> unit) list" where
  "unicastRoutesEx =
     [(toIpPrefix [192, 168, 0, 0] 16, ()),
      (toIpPrefix [192, 168, 0, 0] 20, ()),
      (toIpPrefix [192, 168, 0, 0] 24, ()),
      (toIpPrefix [192, 168, 20, 16] 28, ())]"


section \<open>Properties of LinkMonitor\<close>

subsection \<open>The peer set computed from the adjacencies\<close>

lemma eligibleIfaces_Nil [simp]: "eligibleIfaces [] a n = {}"
  by (simp add: eligibleIfaces_def)

lemma eligibleIfaces_Cons:
  "eligibleIfaces (kv # rest) a n =
     (if fst (fst kv) = n \<and> area (snd kv) = a \<and> \<not> isRestarting (snd kv)
      then insert (snd (fst kv)) (eligibleIfaces rest a n) else eligibleIfaces rest a n)"
  by (simp add: eligibleIfaces_def)

lemma finite_eligibleIfaces [simp]: "finite (eligibleIfaces adjs a n)"
  by (simp add: eligibleIfaces_def)

lemma map_of_emplace_fresh:
  assumes "map_of m k = None"
  shows "map_of (emplace k v m) = (map_of m)(k \<mapsto> v)"
proof -
  from assms have "k \<notin> fst ` set m" by (simp add: map_of_eq_None_iff)
  then have e: "emplace k v m = m @ [(k, v)]" by (simp add: emplace_def)
  show ?thesis
  proof
    fix x
    show "map_of (emplace k v m) x = ((map_of m)(k \<mapsto> v)) x"
      using assms by (cases "map_of m x") (auto simp: e map_add_def)
  qed
qed

lemma leastOf_None_insert: "finite E \<Longrightarrow> leastOf None (insert i E) = leastOf (Some i) E"
  by (simp add: leastOf_def)

lemma leastOf_replace:
  assumes "finite E" "i < cur"
  shows "leastOf (Some cur) (insert i E) = leastOf (Some i) E"
proof -
  have m: "min cur i = i" "min i cur = i" using assms(2) by (simp_all add: min_absorb2 min_absorb1 less_imp_le)
  show ?thesis
  proof (cases "E = {}")
    case True
    then show ?thesis using m by (simp add: leastOf_def)
  next
    case False
    then have "Min (insert cur (insert i E)) = min cur (min i (Min E))"
      using assms by simp
    also have "\<dots> = min i (Min E)" using m by (simp add: min.assoc [symmetric])
    also have "\<dots> = Min (insert i E)" using assms False by simp
    finally show ?thesis by (simp add: leastOf_def insert_commute)
  qed
qed

lemma leastOf_keep:
  assumes "finite E" "\<not> i < cur"
  shows "leastOf (Some cur) (insert i E) = leastOf (Some cur) E"
proof -
  have "cur \<le> i" using assms(2) by (simp add: not_less)
  then have m: "min cur i = cur" "min i cur = cur" by (simp_all add: min_absorb2 min_absorb1)
  show ?thesis
  proof (cases "E = {}")
    case True
    then show ?thesis using m by (simp add: leastOf_def)
  next
    case False
    then have "Min (insert cur (insert i E)) = min cur (min i (Min E))"
      using assms by simp
    also have "\<dots> = min cur (Min E)" using m by (simp add: min.assoc [symmetric])
    also have "\<dots> = Min (insert cur E)" using assms False by simp
    finally show ?thesis by (simp add: leastOf_def insert_commute)
  qed
qed

lemma neighborToIfaceLoop_lookup:
  "map_of (neighborToIfaceLoop adjs a acc) n = leastOf (map_of acc n) (eligibleIfaces adjs a n)"
proof (induction adjs arbitrary: acc)
  case Nil
  show ?case by (cases "map_of acc n") (simp_all add: leastOf_def)
next
  case (Cons kv rest)
  let ?n = "fst (fst kv)" and ?i = "snd (fst kv)"
  let ?E = "eligibleIfaces rest a n"
  show ?case
  proof (cases "area (snd kv) \<noteq> a \<or> isRestarting (snd kv)")
    case True
    then have "neighborToIfaceLoop (kv # rest) a acc = neighborToIfaceLoop rest a acc"
      by simp
    moreover from True have "eligibleIfaces (kv # rest) a n = ?E"
      by (auto simp: eligibleIfaces_Cons)
    ultimately show ?thesis using Cons.IH [of acc] by simp
  next
    case False
    then have E: "eligibleIfaces (kv # rest) a n = (if ?n = n then insert ?i ?E else ?E)"
      by (simp add: eligibleIfaces_Cons)
    show ?thesis
    proof (cases "map_of acc ?n")
      case None
      with False have "neighborToIfaceLoop (kv # rest) a acc
          = neighborToIfaceLoop rest a (emplace ?n ?i acc)"
        by (simp add: Let_def)
      then have "map_of (neighborToIfaceLoop (kv # rest) a acc) n
          = leastOf (((map_of acc)(?n \<mapsto> ?i)) n) ?E"
        using Cons.IH [of "emplace ?n ?i acc"] None by (simp only: map_of_emplace_fresh)
      also have "\<dots> = leastOf (map_of acc n) (eligibleIfaces (kv # rest) a n)"
      proof (cases "?n = n")
        case True
        then show ?thesis using None unfolding E
          by (simp add: leastOf_None_insert)
      next
        case False
        then show ?thesis unfolding E by simp
      qed
      finally show ?thesis .
    next
      case (Some cur)
      show ?thesis
      proof (cases "?i < cur")
        case True
        with False Some have "neighborToIfaceLoop (kv # rest) a acc
            = neighborToIfaceLoop rest a (AList.update ?n ?i acc)"
          by (simp add: Let_def)
        then have "map_of (neighborToIfaceLoop (kv # rest) a acc) n
            = leastOf (((map_of acc)(?n \<mapsto> ?i)) n) ?E"
          using Cons.IH [of "AList.update ?n ?i acc"] by (simp only: update_conv')
        also have "\<dots> = leastOf (map_of acc n) (eligibleIfaces (kv # rest) a n)"
        proof (cases "?n = n")
          case eq: True
          then have "map_of acc n = Some cur" using Some by simp
          then show ?thesis using eq True unfolding E
            by (simp add: leastOf_replace)
        next
          case False
          then show ?thesis unfolding E by simp
        qed
        finally show ?thesis .
      next
        case nlt: False
        with False Some have "neighborToIfaceLoop (kv # rest) a acc
            = neighborToIfaceLoop rest a acc"
          by (simp add: Let_def)
        then have "map_of (neighborToIfaceLoop (kv # rest) a acc) n
            = leastOf (map_of acc n) ?E"
          using Cons.IH [of acc] by (simp only:)
        also have "\<dots> = leastOf (map_of acc n) (eligibleIfaces (kv # rest) a n)"
        proof (cases "?n = n")
          case eq: True
          then have "map_of acc n = Some cur" using Some by simp
          then show ?thesis using eq nlt unfolding E
            by (simp add: leastOf_keep)
        next
          case False
          then show ?thesis unfolding E by simp
        qed
        finally show ?thesis .
      qed
    qed
  qed
qed

lemma map_of_emplace:
  "map_of (emplace k v m) x =
     (case map_of m x of Some y \<Rightarrow> Some y | None \<Rightarrow> if x = k then Some v else None)"
proof (cases "k \<in> fst ` set m")
  case True
  then have "map_of m k \<noteq> None" by (simp add: map_of_eq_None_iff)
  then show ?thesis using True by (auto simp: emplace_def split: option.splits)
next
  case False
  then show ?thesis by (auto simp: emplace_def map_add_def split: option.splits)
qed

lemma fst_set_emplace: "fst ` set (emplace k v m) = insert k (fst ` set m)"
  by (auto simp: emplace_def)

lemma distinct_emplace: "distinct (map fst m) \<Longrightarrow> distinct (map fst (emplace k v m))"
  by (auto simp: emplace_def)

lemma neighborToIfaceLoop_distinct:
  "distinct (map fst acc) \<Longrightarrow> distinct (map fst (neighborToIfaceLoop adjs a acc))"
proof (induction adjs arbitrary: acc)
  case Nil
  then show ?case by simp
next
  case (Cons kv rest)
  then show ?case
    by (auto simp: Let_def distinct_emplace distinct_update split: option.splits)
qed

lemma eligibleIfaces_mem:
  "i \<in> eligibleIfaces adjs a n \<longleftrightarrow>
     (\<exists>av. ((n, i), av) \<in> set adjs \<and> area av = a \<and> \<not> isRestarting av)"
  by (force simp: eligibleIfaces_def)

lemma neighborToIfaceLoop_keys:
  assumes "(n, i) \<in> set (neighborToIfaceLoop adjs a [])"
  shows "i \<in> eligibleIfaces adjs a n \<and> i = Min (eligibleIfaces adjs a n)"
proof -
  have d: "distinct (map fst (neighborToIfaceLoop adjs a []))"
    by (rule neighborToIfaceLoop_distinct) simp
  with assms have "map_of (neighborToIfaceLoop adjs a []) n = Some i" by simp
  then have l: "leastOf None (eligibleIfaces adjs a n) = Some i"
    by (simp add: neighborToIfaceLoop_lookup)
  then have ne: "eligibleIfaces adjs a n \<noteq> {}" and "i = Min (eligibleIfaces adjs a n)"
    by (auto simp: leastOf_def split: if_splits)
  then show ?thesis using Min_in [of "eligibleIfaces adjs a n"] by simp
qed

lemma peersLoop_result:
  assumes "\<forall>kv \<in> set l. map_of adjs kv \<noteq> None"
  shows "\<exists>peers. peersLoop adjs l acc = Inr peers
           \<and> (\<forall>n. map_of peers n =
                 (case map_of acc n of
                    Some p \<Rightarrow> Some p
                  | None \<Rightarrow> map_option (\<lambda>i. peerSpec (the (map_of adjs (n, i)))) (map_of l n)))
           \<and> (distinct (map fst acc) \<longrightarrow> distinct (map fst peers))
           \<and> fst ` set peers = fst ` set acc \<union> fst ` set l"
  using assms
proof (induction l arbitrary: acc)
  case Nil
  then show ?case by (auto split: option.splits)
next
  case (Cons kv rest)
  then obtain av where av: "map_of adjs kv = Some av" by auto
  let ?acc = "emplace (fst kv) (peerSpec av) acc"
  from Cons.prems have "\<forall>kv \<in> set rest. map_of adjs kv \<noteq> None" by simp
  from Cons.IH [OF this, of ?acc] obtain peers where
    p: "peersLoop adjs rest ?acc = Inr peers"
    and m: "\<forall>n. map_of peers n =
                 (case map_of ?acc n of
                    Some p \<Rightarrow> Some p
                  | None \<Rightarrow> map_option (\<lambda>i. peerSpec (the (map_of adjs (n, i)))) (map_of rest n))"
    and d: "distinct (map fst ?acc) \<longrightarrow> distinct (map fst peers)"
    and k: "fst ` set peers = fst ` set ?acc \<union> fst ` set rest"
    by blast
  have 1: "peersLoop adjs (kv # rest) acc = Inr peers" using av p by simp
  have 2: "map_of peers n =
                 (case map_of acc n of
                    Some p \<Rightarrow> Some p
                  | None \<Rightarrow> map_option (\<lambda>i. peerSpec (the (map_of adjs (n, i)))) (map_of (kv # rest) n))" for n
    using m [rule_format, of n] av
    by (cases kv) (auto simp: map_of_emplace split: option.splits)
  have 3: "distinct (map fst acc) \<longrightarrow> distinct (map fst peers)"
    using d by (simp add: distinct_emplace)
  have 4: "fst ` set peers = fst ` set acc \<union> fst ` set (kv # rest)"
    using k by (auto simp: fst_set_emplace)
  show ?case using 1 2 3 4 by blast
qed

lemma getPeersFromAdjacencies_char:
  assumes "distinct (map fst adjs)"
  shows "\<exists>peers. getPeersFromAdjacencies adjs a = Inr peers
           \<and> distinct (map fst peers)
           \<and> (\<forall>n. n \<in> fst ` set peers \<longleftrightarrow> eligibleIfaces adjs a n \<noteq> {})
           \<and> (\<forall>n. eligibleIfaces adjs a n \<noteq> {} \<longrightarrow>
                 (\<exists>av. map_of adjs (n, Min (eligibleIfaces adjs a n)) = Some av
                       \<and> area av = a \<and> \<not> isRestarting av
                       \<and> map_of peers n = Some (peerSpec av)))"
proof -
  let ?l = "neighborToIfaceLoop adjs a []"
  have lk: "map_of ?l n = leastOf None (eligibleIfaces adjs a n)" for n
    by (simp add: neighborToIfaceLoop_lookup)
  have pre: "\<forall>kv \<in> set ?l. map_of adjs kv \<noteq> None"
  proof
    fix kv assume "kv \<in> set ?l"
    then have "(fst kv, snd kv) \<in> set ?l" by simp
    from neighborToIfaceLoop_keys [OF this]
    have "snd kv \<in> eligibleIfaces adjs a (fst kv)" by (rule conjunct1)
    then obtain av where "((fst kv, snd kv), av) \<in> set adjs"
      unfolding eligibleIfaces_mem by blast
    then have "map_of adjs kv = Some av" using assms by simp
    then show "map_of adjs kv \<noteq> None" by simp
  qed
  from peersLoop_result [OF pre, of "[]"] obtain peers where
    p: "peersLoop adjs ?l [] = Inr peers"
    and m: "\<forall>n. map_of peers n = map_option (\<lambda>i. peerSpec (the (map_of adjs (n, i)))) (map_of ?l n)"
    and d: "distinct (map fst peers)"
    and k: "fst ` set peers = fst ` set ?l"
    by auto
  have keys: "n \<in> fst ` set peers \<longleftrightarrow> eligibleIfaces adjs a n \<noteq> {}" for n
  proof -
    have "n \<in> fst ` set ?l \<longleftrightarrow> map_of ?l n \<noteq> None"
      by (simp add: map_of_eq_None_iff)
    then show ?thesis unfolding k lk by (simp add: leastOf_def)
  qed
  have spec: "\<exists>av. map_of adjs (n, Min (eligibleIfaces adjs a n)) = Some av
                       \<and> area av = a \<and> \<not> isRestarting av
                       \<and> map_of peers n = Some (peerSpec av)"
    if ne: "eligibleIfaces adjs a n \<noteq> {}" for n
  proof -
    let ?i = "Min (eligibleIfaces adjs a n)"
    have "?i \<in> eligibleIfaces adjs a n" using ne by (simp add: Min_in)
    then obtain av where av: "((n, ?i), av) \<in> set adjs" "area av = a" "\<not> isRestarting av"
      by (auto simp: eligibleIfaces_mem)
    then have mo: "map_of adjs (n, ?i) = Some av" using assms by simp
    have "map_of ?l n = Some ?i" using ne by (simp add: lk leastOf_def)
    then have "map_of peers n = Some (peerSpec av)" using m mo by simp
    then show ?thesis using mo av by simp
  qed
  show ?thesis
    unfolding getPeersFromAdjacencies_def using p d keys spec by blast
qed

lemma advertiseKvStorePeers_no_upPeers:
  assumes "getPeersFromAdjacencies (lm_adjacencies s) a = Inr newPeers"
  shows "\<exists>s'. advertiseKvStorePeers a [] s = Inr s'
           \<and> lm_adjacencies s' = lm_adjacencies s
           \<and> lm_peers s' a = Some newPeers"
  using assms by (simp add: advertiseKvStorePeers_def Let_def)

lemma restarting_not_eligible:
  assumes "distinct (map fst adjs)" "map_of adjs (n, i) = Some av"
  shows "i \<notin> eligibleIfaces (AList.update (n, i) (av\<lparr>isRestarting := True\<rparr>) adjs) a n"
proof
  let ?adjs = "AList.update (n, i) (av\<lparr>isRestarting := True\<rparr>) adjs"
  assume "i \<in> eligibleIfaces ?adjs a n"
  then obtain av' where av': "((n, i), av') \<in> set ?adjs" "\<not> isRestarting av'"
    unfolding eligibleIfaces_mem by blast
  have "distinct (map fst ?adjs)" using assms(1) by (rule distinct_update)
  with av'(1) have "map_of ?adjs (n, i) = Some av'" by simp
  then have "av' = av\<lparr>isRestarting := True\<rparr>" by (simp add: update_conv')
  with av'(2) show False by simp
qed

lemma absent_not_eligible:
  assumes "map_of adjs (n, i) = None"
  shows "i \<notin> eligibleIfaces adjs a n"
proof
  assume "i \<in> eligibleIfaces adjs a n"
  then obtain av where "((n, i), av) \<in> set adjs" unfolding eligibleIfaces_mem by blast
  then have "(n, i) \<in> fst ` set adjs" by force
  with assms show False by (simp add: map_of_eq_None_iff)
qed

lemma neighborRestartingEvent_result:
  assumes "distinct (map fst (lm_adjacencies s))"
  shows "\<exists>s' peers. neighborRestartingEvent rn ifn a s = Inr s'
           \<and> map fst (lm_adjacencies s') = map fst (lm_adjacencies s)
           \<and> getPeersFromAdjacencies (lm_adjacencies s') a = Inr peers
           \<and> lm_peers s' a = Some peers
           \<and> ifn \<notin> eligibleIfaces (lm_adjacencies s') a rn"
proof -
  let ?adjs = "lm_adjacencies s"
  define s1 where "s1 = (case map_of ?adjs (rn, ifn) of
                  None \<Rightarrow> s
                | Some av \<Rightarrow>
                    s\<lparr>lm_adjacencies :=
                        AList.update (rn, ifn) (av\<lparr>isRestarting := True\<rparr>) ?adjs\<rparr>)"
  have ev: "neighborRestartingEvent rn ifn a s = advertiseKvStorePeers a [] s1"
    by (simp add: neighborRestartingEvent_def s1_def Let_def)
  have keys: "map fst (lm_adjacencies s1) = map fst ?adjs"
  proof (cases "map_of ?adjs (rn, ifn)")
    case None
    then show ?thesis by (simp add: s1_def)
  next
    case (Some av)
    then have "(rn, ifn) \<in> set (map fst ?adjs)"
      by (metis map_of_eq_None_iff option.distinct(1) set_map)
    then show ?thesis using Some by (simp add: s1_def update_keys)
  qed
  have nel: "ifn \<notin> eligibleIfaces (lm_adjacencies s1) a rn"
  proof (cases "map_of ?adjs (rn, ifn)")
    case None
    then show ?thesis by (simp add: s1_def absent_not_eligible)
  next
    case (Some av)
    then show ?thesis using assms by (simp add: s1_def restarting_not_eligible)
  qed
  have "distinct (map fst (lm_adjacencies s1))" using keys assms by simp
  from getPeersFromAdjacencies_char [OF this, of a]
  obtain peers where p: "getPeersFromAdjacencies (lm_adjacencies s1) a = Inr peers" by blast
  from advertiseKvStorePeers_no_upPeers [OF p] obtain s' where
    "advertiseKvStorePeers a [] s1 = Inr s'" "lm_adjacencies s' = lm_adjacencies s1"
    "lm_peers s' a = Some peers" by blast
  then show ?thesis using ev keys nel p by auto
qed

text \<open>
  Claim C6, as the code has it. For every adjacency map (distinct keys) and every area,
  \<open>getPeersFromAdjacencies\<close> returns a peer map with exactly one entry per neighbor
  that has at least one non-restarting adjacency in that area, and the entry's peer spec
  is that of the adjacency whose local interface name is the lexicographic minimum among
  that neighbor's non-restarting interfaces of that area (not among all of the neighbor's
  interfaces). \<open>neighborRestartingEvent\<close> keeps every key of the adjacency database,
  recomputes the peers of the area from it, and the restarting adjacency no longer counts
  for the peer set.
\<close>

theorem getPeersFromAdjacencies_min_eligible_iface:
  assumes "distinct (map fst (lm_adjacencies s))"
  shows "(\<exists>peers. getPeersFromAdjacencies (lm_adjacencies s) a = Inr peers
           \<and> distinct (map fst peers)
           \<and> (\<forall>n. n \<in> fst ` set peers \<longleftrightarrow> eligibleIfaces (lm_adjacencies s) a n \<noteq> {})
           \<and> (\<forall>n. eligibleIfaces (lm_adjacencies s) a n \<noteq> {} \<longrightarrow>
                 (\<exists>av. map_of (lm_adjacencies s) (n, Min (eligibleIfaces (lm_adjacencies s) a n)) = Some av
                       \<and> area av = a \<and> \<not> isRestarting av
                       \<and> map_of peers n = Some (peerSpec av))))
       \<and> (\<exists>s' peers'. neighborRestartingEvent rn ifn a s = Inr s'
           \<and> map fst (lm_adjacencies s') = map fst (lm_adjacencies s)
           \<and> getPeersFromAdjacencies (lm_adjacencies s') a = Inr peers'
           \<and> lm_peers s' a = Some peers'
           \<and> ifn \<notin> eligibleIfaces (lm_adjacencies s') a rn)"
  using getPeersFromAdjacencies_char [OF assms, of a]
        neighborRestartingEvent_result [OF assms, of rn ifn a]
  by (rule conjI)

theorem getPeersFromAdjacencies_min_eligible_iface_witness:
  "distinct (map fst (lm_adjacencies linkMonitorEx))
   \<and> getPeersFromAdjacencies (lm_adjacencies linkMonitorEx) ''0''
       = Inr [(''node1'', peerSpecEx ''iface1''), (''node2'', peerSpecEx ''iface2'')]
   \<and> eligibleIfaces (lm_adjacencies linkMonitorEx) ''0'' ''node2'' = {''iface2'', ''iface3''}
   \<and> (\<exists>s'. neighborRestartingEvent ''node2'' ''iface2'' ''0'' linkMonitorEx = Inr s'
         \<and> map fst (lm_adjacencies s') = map fst (lm_adjacencies linkMonitorEx)
         \<and> ''iface2'' \<notin> eligibleIfaces (lm_adjacencies s') ''0'' ''node2'')"
proof -
  have h: "distinct (map fst (lm_adjacencies linkMonitorEx))"
    by (simp add: linkMonitorEx_def adjacenciesEx_def)
  have g: "getPeersFromAdjacencies (lm_adjacencies linkMonitorEx) ''0''
       = Inr [(''node1'', peerSpecEx ''iface1''), (''node2'', peerSpecEx ''iface2'')]"
    by (simp add: linkMonitorEx_def getPeersFromAdjacencies_def adjacenciesEx_def adjValueEx_def emplace_def)
  have e: "eligibleIfaces (lm_adjacencies linkMonitorEx) ''0'' ''node2'' = {''iface2'', ''iface3''}"
    by (simp add: linkMonitorEx_def eligibleIfaces_def adjacenciesEx_def adjValueEx_def)
  show ?thesis
    using h g e getPeersFromAdjacencies_min_eligible_iface [OF h, of "''0''" "''node2''" "''iface2''"]
    by blast
qed

text \<open>
  Claim C6 as stated fails: the smallest of all interfaces to \<open>node1\<close> is
  \<open>iface0\<close>, whose adjacency is restarting, and the peer spec of \<open>node1\<close> is that of
  \<open>iface1\<close>.
\<close>

theorem getPeersFromAdjacencies_all_ifaces_counterexample:
  "map_of (lm_adjacencies linkMonitorEx) (''node1'', Min (allIfaces (lm_adjacencies linkMonitorEx) ''node1''))
     = Some (adjValueEx ''node1'' ''iface0'' True ''0'')
   \<and> getPeersFromAdjacencies (lm_adjacencies linkMonitorEx) ''0''
       = Inr [(''node1'', peerSpecEx ''iface1''), (''node2'', peerSpecEx ''iface2'')]
   \<and> peerSpecEx ''iface1'' \<noteq> peerSpec (adjValueEx ''node1'' ''iface0'' True ''0'')"
  by (simp add: linkMonitorEx_def getPeersFromAdjacencies_def adjacenciesEx_def adjValueEx_def
        emplace_def allIfaces_def peerSpecEx_def)

subsection \<open>Override commands for unknown interfaces and adjacencies\<close>

text \<open>
  Claim C7, as the code has it. When \<open>setInterfaceOverload\<close> or \<open>setLinkMetric\<close> is
  called for an interface that is not in \<open>interfaces_\<close>, or \<open>setAdjacencyMetric\<close> for
  an adjacency that is not in \<open>adjacencies_\<close>, the promise is completed with a value
  (no error reaches the caller) and the state is unchanged: the config keeps its
  \<open>overloadedLinks\<close>, \<open>linkMetricOverrides\<close> and \<open>adjMetricOverrides\<close>, and the
  advertisement throttle is not armed.
\<close>

theorem override_unknown_target_is_noop:
  "(lm_interfaces s interfaceName = None \<longrightarrow>
      setInterfaceOverload interfaceName b s = (Inr (), s)
      \<and> setLinkMetric interfaceName m s = (Inr (), s))
   \<and> (map_of (lm_adjacencies s) (adjNodeName, interfaceName) = None \<longrightarrow>
      setAdjacencyMetric interfaceName adjNodeName m s = (Inr (), s))"
  by (simp add: setInterfaceOverload_def setLinkMetric_def setAdjacencyMetric_def)

theorem override_unknown_target_is_noop_witness:
  "lm_interfaces linkMonitorEx ''po9'' = None
   \<and> map_of (lm_adjacencies linkMonitorEx) (''node9'', ''po9'') = None
   \<and> setInterfaceOverload ''po9'' True linkMonitorEx = (Inr (), linkMonitorEx)
   \<and> setLinkMetric ''po9'' (Some 5) linkMonitorEx = (Inr (), linkMonitorEx)
   \<and> setAdjacencyMetric ''po9'' ''node9'' (Some 5) linkMonitorEx = (Inr (), linkMonitorEx)"
proof -
  have h1: "lm_interfaces linkMonitorEx ''po9'' = None"
    by (simp add: linkMonitorEx_def)
  have h2: "map_of (lm_adjacencies linkMonitorEx) (''node9'', ''po9'') = None"
    by (simp add: linkMonitorEx_def adjacenciesEx_def)
  show ?thesis
    using h1 h2
      override_unknown_target_is_noop [of linkMonitorEx "''po9''" True "Some 5" "''node9''"]
    by simp
qed

text \<open>
  Claim C7 as stated fails: for the unknown interface \<open>po9\<close> the call does not
  return an error.
\<close>

theorem override_unknown_interface_no_error_counterexample:
  "lm_interfaces linkMonitorEx ''po9'' = None
   \<and> \<not> isl (fst (setInterfaceOverload ''po9'' True linkMonitorEx))"
  by (simp add: setInterfaceOverload_def linkMonitorEx_def)

subsection \<open>Hold time before the first adjacency advertisement\<close>

lemma advertiseAdjacenciesAreas_held:
  "(\<forall>i. clock i < lm_adjHoldUntilTimePoint s) \<Longrightarrow> advertiseAdjacenciesAreas clock k as s = s"
  by (induction as arbitrary: k) (simp_all add: advertiseAdjacencies_def)

lemma advertiseCalls_held:
  "(\<forall>c \<in> set cs. fst c < lm_adjHoldUntilTimePoint s) \<Longrightarrow> advertiseCalls cs s = s"
  by (induction cs) (simp_all add: advertiseAdjacencies_def)

text \<open>
  Claim C8. Every call of \<open>advertiseAdjacencies\<close> (for one area, for all areas, and
  any sequence of calls) made while the clock reads less than the hold-until time point
  returns without publishing and leaves the state as it was; so a call that writes to
  KvStore reads a clock at or after the hold-until time point. \<open>persistKey\<close> is called
  nowhere else in LinkMonitor.
\<close>

theorem advertiseAdjacencies_held_until_hold_expiry:
  "(now < lm_adjHoldUntilTimePoint s \<longrightarrow> advertiseAdjacencies now a s = s)
   \<and> ((\<forall>i. clock i < lm_adjHoldUntilTimePoint s) \<longrightarrow> advertiseAdjacenciesAll clock s = s)
   \<and> ((\<forall>c \<in> set cs. fst c < lm_adjHoldUntilTimePoint s) \<longrightarrow> advertiseCalls cs s = s)
   \<and> (lm_kvStoreClient (advertiseAdjacencies now a s) \<noteq> lm_kvStoreClient s \<longrightarrow>
        lm_adjHoldUntilTimePoint s \<le> now)"
  by (auto simp: advertiseAdjacenciesAreas_held advertiseCalls_held advertiseAdjacenciesAll_def
        advertiseAdjacencies_def)

theorem advertiseAdjacencies_held_until_hold_expiry_witness:
  "999 < lm_adjHoldUntilTimePoint linkMonitorEx
   \<and> advertiseAdjacencies 999 ''0'' linkMonitorEx = linkMonitorEx
   \<and> advertiseAdjacenciesAll (\<lambda>i. 999) linkMonitorEx = linkMonitorEx
   \<and> advertiseCalls [(5, ''0''), (999, ''0'')] linkMonitorEx = linkMonitorEx
   \<and> lm_kvStoreClient (advertiseAdjacencies 1000 ''0'' linkMonitorEx) \<noteq> lm_kvStoreClient linkMonitorEx
   \<and> lm_adjHoldUntilTimePoint linkMonitorEx \<le> 1000"
proof -
  have h: "999 < lm_adjHoldUntilTimePoint linkMonitorEx" "(5::int) < 999"
    by (simp_all add: linkMonitorEx_def)
  have p: "lm_kvStoreClient (advertiseAdjacencies 1000 ''0'' linkMonitorEx) \<noteq> lm_kvStoreClient linkMonitorEx"
    by (simp add: advertiseAdjacencies_def linkMonitorEx_def)
  show ?thesis
    using h p
      advertiseAdjacencies_held_until_hold_expiry
        [of 999 linkMonitorEx "''0''" "\<lambda>i. 999" "[(5, ''0''), (999, ''0'')]"]
      advertiseAdjacencies_held_until_hold_expiry
        [of 1000 linkMonitorEx "''0''" "\<lambda>i. 999" "[]"]
    by simp
qed

subsection \<open>The metric derived from RTT\<close>

text \<open>
  Claim C10, as the code has it. With \<open>rttUs / 100\<close> the truncating quotient: whenever
  the quotient fits \<open>int32_t\<close>, \<open>getRttMetric\<close> returns \<open>max(rttUs / 100, 1)\<close>; and
  for every \<open>rttUs\<close>, also zero and negative ones, the result is at least 1.
\<close>

theorem getRttMetric_in_range_and_positive:
  "(- (2 ^ 31) \<le> sint rttUs sdiv 100 \<and> sint rttUs sdiv 100 < 2 ^ 31 \<longrightarrow>
      sint (getRttMetric rttUs) = max (sint rttUs sdiv 100) 1)
   \<and> 1 \<le> sint (getRttMetric rttUs)"
proof (intro conjI impI)
  assume a: "- (2 ^ 31) \<le> sint rttUs sdiv 100 \<and> sint rttUs sdiv 100 < 2 ^ 31"
  let ?q = "sint rttUs sdiv 100"
  have q64: "sint (word_of_int ?q :: 64 word) = ?q"
    using a by (simp add: sint_sbintrunc' signed_take_bit_int_eq_self)
  have "(scast (word_of_int ?q :: 64 word) :: 32 word) = word_of_int ?q"
    using q64 by (simp add: scast_eq)
  then have "sint (scast (word_of_int ?q :: 64 word) :: 32 word) = ?q"
    using a by (simp add: sint_sbintrunc' signed_take_bit_int_eq_self)
  then show "sint (getRttMetric rttUs) = max ?q 1"
    unfolding getRttMetric_def Let_def by (simp add: word_sless_alt max_def)
next
  show "1 \<le> sint (getRttMetric rttUs)"
    unfolding getRttMetric_def Let_def by (simp add: word_sless_alt)
qed

theorem getRttMetric_in_range_and_positive_witness:
  "- (2 ^ 31) \<le> sint (250 :: 64 word) sdiv 100 \<and> sint (250 :: 64 word) sdiv 100 < 2 ^ 31
   \<and> sint (getRttMetric 250) = 2 \<and> sint (getRttMetric 0) = 1 \<and> sint (getRttMetric (- 250)) = 1"
proof -
  have q: "sint (250 :: 64 word) sdiv 100 = 2" "sint (0 :: 64 word) sdiv 100 = 0"
    "sint (- 250 :: 64 word) sdiv 100 = - 2"
    by (simp_all add: signed_divide_int_def)
  show ?thesis
    using q getRttMetric_in_range_and_positive [of 250]
      getRttMetric_in_range_and_positive [of 0]
      getRttMetric_in_range_and_positive [of "- 250"]
    by simp
qed

text \<open>
  Claim C10 as stated fails where the quotient does not fit \<open>int32_t\<close>: for
  \<open>rttUs = 214748364800\<close> the quotient is \<open>2^31\<close>, the cast makes it negative and the
  result is 1.
\<close>

theorem getRttMetric_narrowing_counterexample:
  "sint (getRttMetric 214748364800) = 1
   \<and> max (sint (214748364800 :: 64 word) sdiv 100) 1 = 2147483648"
  by code_simp

section \<open>Properties of the messaging queues\<close>

subsection \<open>Invariant and order of delivery\<close>

lemma rwq_inv_new: "rwq_inv newRWQueue"
  by (simp add: rwq_inv_def newRWQueue_def)

lemma getResume_new: "q_store q r = newPendingRead \<Longrightarrow> getResume r q = None"
  by (simp add: getResume_def newPendingRead_def)

lemma woken_none:
  "list_all (\<lambda>r. q_store q' r = newPendingRead) (q_pendingReads q) \<Longrightarrow> woken q q' = []"
  by (simp add: woken_def list_all_iff getResume_new)

lemma postAll_apply:
  "postAll rs st r = (if r \<in> set rs then (st r)\<lparr>baton := True\<rparr> else st r)"
  by (induction rs arbitrary: st) auto

lemma push_closed: "q_closed q \<Longrightarrow> push v q = (False, q)"
  by (simp add: push_def)

lemma get_closed: "q_closed q \<Longrightarrow> get r q = (Some (Inl QUEUE_CLOSED), q)"
  by (simp add: get_def getAnyImpl_def)

lemma close_closed: "q_closed q \<Longrightarrow> close q = q"
  by (simp add: close_def)

lemma q_closed_close: "q_closed (close q)"
  by (simp add: close_def)

lemma rwq_inv_close: "rwq_inv (close q) \<longleftrightarrow> (q_closed q \<longrightarrow> rwq_inv q)"
  by (auto simp: close_def rwq_inv_def)

lemma qstep_closed:
  assumes "q_closed q" "q_pendingReads q = []"
  shows "qstep op q = ((case op of Get r \<Rightarrow> [(r, Inl QUEUE_CLOSED)] | _ \<Rightarrow> []), q)"
  using assms
  by (cases op) (simp_all add: push_closed get_closed close_closed woken_def)

lemma qrun_closed:
  assumes "q_closed q" "q_pendingReads q = []"
  shows "qrun ops q = (concat (map (\<lambda>op. case op of Get r \<Rightarrow> [(r, Inl QUEUE_CLOSED)] | _ \<Rightarrow> []) ops), q)"
  using assms by (induction ops) (simp_all add: qstep_closed)

lemma push_pending:
  assumes "\<not> q_closed q" "q_pendingReads q = r # rs"
  shows "push v q = (True, q\<lparr>q_store := (q_store q)(r := (q_store q r)\<lparr>data := Some v, baton := True\<rparr>),
                     q_pendingReads := rs\<rparr>)"
  using assms by (simp add: push_def)

lemma push_no_pending:
  assumes "\<not> q_closed q" "q_pendingReads q = []"
  shows "push v q = (True, q\<lparr>q_queue := q_queue q @ [v]\<rparr>)"
  using assms by (simp add: push_def)

lemma get_data:
  assumes "\<not> q_closed q" "q_queue q = v # vs"
  shows "get r q = (Some (Inr v), q\<lparr>q_queue := vs\<rparr>)"
  using assms by (simp add: get_def getAnyImpl_def)

lemma get_block:
  assumes "\<not> q_closed q" "q_queue q = []"
  shows "get r q = (None, q\<lparr>q_pendingReads := q_pendingReads q @ [r],
                          q_store := (q_store q)(r := newPendingRead)\<rparr>)"
  using assms by (simp add: get_def getAnyImpl_def getResume_def newPendingRead_def)

lemma qstep_open:
  assumes "rwq_inv q" "\<not> q_closed q" "op \<noteq> Close"
  shows "rwq_inv (snd (qstep op q)) \<and> \<not> q_closed (snd (qstep op q))
         \<and> valuesOf (fst (qstep op q)) @ q_queue (snd (qstep op q))
             = q_queue q @ (case op of Push v \<Rightarrow> [v] | _ \<Rightarrow> [])"
proof (cases op)
  case (Push v)
  show ?thesis
  proof (cases "q_pendingReads q")
    case Nil
    then show ?thesis using assms Push
      by (simp add: push_no_pending woken_def rwq_inv_def valuesOf_def)
  next
    case (Cons r rs)
    let ?q' = "q\<lparr>q_store := (q_store q)(r := (q_store q r)\<lparr>data := Some v, baton := True\<rparr>),
                     q_pendingReads := rs\<rparr>"
    have p: "push v q = (True, ?q')" using assms Cons by (simp add: push_pending)
    have r: "r \<notin> set rs" "q_queue q = []" "list_all (\<lambda>x. q_store q x = newPendingRead) rs"
      using assms(1) Cons by (auto simp: rwq_inv_def)
    have "list_all (\<lambda>x. q_store ?q' x = newPendingRead) rs"
      using r by (auto simp: list_all_iff)
    then have rest: "concat (map (\<lambda>r. case getResume r ?q' of Some res \<Rightarrow> [(r, res)] | None \<Rightarrow> []) rs) = []"
      by (simp add: list_all_iff getResume_new)
    have "getResume r ?q' = Some (Inr v)" by (simp add: getResume_def)
    then have w: "woken q ?q' = [(r, Inr v)]"
      using rest Cons by (simp add: woken_def)
    have i: "rwq_inv ?q'" using assms(1,2) Cons r by (auto simp: rwq_inv_def list_all_iff)
    show ?thesis using Push p w i r assms(2) by (simp add: valuesOf_def)
  qed
next
  case (Get r)
  show ?thesis
  proof (cases "r \<in> set (q_pendingReads q)")
    case True
    then show ?thesis using assms Get by (simp add: valuesOf_def)
  next
    case False
    show ?thesis
    proof (cases "q_queue q")
      case Nil
      then have g: "get r q = (None, q\<lparr>q_pendingReads := q_pendingReads q @ [r],
                          q_store := (q_store q)(r := newPendingRead)\<rparr>)"
        using assms by (simp add: get_block)
      show ?thesis using Get False g assms(1,2) Nil
        by (auto simp: rwq_inv_def valuesOf_def list_all_iff)
    next
      case (Cons v vs)
      then have g: "get r q = (Some (Inr v), q\<lparr>q_queue := vs\<rparr>)"
        using assms by (simp add: get_data)
      show ?thesis using Get False g assms(1,2) Cons
        by (auto simp: rwq_inv_def valuesOf_def)
    qed
  qed
next
  case Close
  then show ?thesis using assms by simp
qed

lemma valuesOf_append [simp]: "valuesOf (xs @ ys) = valuesOf xs @ valuesOf ys"
  by (simp add: valuesOf_def)



lemma rwq_inv_qstep: "rwq_inv q \<Longrightarrow> rwq_inv (snd (qstep op q))"
proof (cases "q_closed q")
  case True
  assume "rwq_inv q"
  then show ?thesis using True by (simp add: qstep_closed rwq_inv_def)
next
  case False
  assume i: "rwq_inv q"
  show ?thesis
  proof (cases "op = Close")
    case True
    then show ?thesis using i by (simp add: rwq_inv_close Let_def)
  next
    case False
    then show ?thesis using qstep_open [OF i \<open>\<not> q_closed q\<close>] by simp
  qed
qed

lemma rwq_inv_qrun: "rwq_inv q \<Longrightarrow> rwq_inv (snd (qrun ops q))"
proof (induction ops arbitrary: q)
  case Nil
  then show ?case by simp
next
  case (Cons op ops)
  from rwq_inv_qstep [OF Cons.prems, of op] Cons.IH [of "snd (qstep op q)"]
  show ?case by (simp add: split_beta)
qed




lemma received_append [simp]: "received i (xs @ ys) = received i xs @ received i ys"
  by (simp add: received_def)






lemma getResume_close:
  assumes "rwq_inv q" "r \<in> set (q_pendingReads q)"
  shows "getResume r (close q) = Some (Inl QUEUE_CLOSED)"
proof -
  from assms have "\<not> q_closed q" by (auto simp: rwq_inv_def)
  then show ?thesis using assms
    by (simp add: close_def getResume_def postAll_apply rwq_inv_def list_all_iff newPendingRead_def)
qed

lemma woken_all:
  "(\<And>r. r \<in> set rs \<Longrightarrow> getResume r q' = Some res) \<Longrightarrow>
     concat (map (\<lambda>r. case getResume r q' of Some res \<Rightarrow> [(r, res)] | None \<Rightarrow> []) rs)
       = map (\<lambda>r. (r, res)) rs"
  by (induction rs) simp_all

lemma woken_close:
  assumes "rwq_inv q"
  shows "woken q (close q) = map (\<lambda>r. (r, Inl QUEUE_CLOSED)) (q_pendingReads q)"
  unfolding woken_def using getResume_close [OF assms] by (rule woken_all)

subsection \<open>Closing an RWQueue\<close>

text \<open>
  Claim C3. Let \<open>q\<close> be any state an \<open>RWQueue\<close> reaches from its construction and
  \<open>qc\<close> the state after \<open>close()\<close>. Then the queue is closed and holds no data (what
  was enqueued is discarded); every reader that was blocked in \<open>get()\<close> returns
  \<open>QUEUE_CLOSED\<close>; every later \<open>get()\<close> returns \<open>QUEUE_CLOSED\<close> and every later
  \<open>push()\<close> returns false, each leaving the state unchanged; and whatever calls follow,
  the only results are \<open>QUEUE_CLOSED\<close>, so no enqueued value is ever delivered.
\<close>

theorem close_ends_reads_and_writes:
  "let q = snd (qrun ops newRWQueue); qc = close q in
     q_closed qc \<and> q_queue qc = [] \<and> q_pendingReads qc = []
     \<and> (\<forall>r \<in> set (q_pendingReads q). getResume r qc = Some (Inl QUEUE_CLOSED))
     \<and> woken q qc = map (\<lambda>r. (r, Inl QUEUE_CLOSED)) (q_pendingReads q)
     \<and> (\<forall>r. get r qc = (Some (Inl QUEUE_CLOSED), qc))
     \<and> (\<forall>v. push v qc = (False, qc))
     \<and> (\<forall>ops'. qrun ops' qc
           = (concat (map (\<lambda>op. case op of Get r \<Rightarrow> [(r, Inl QUEUE_CLOSED)] | _ \<Rightarrow> []) ops'), qc))"
proof -
  define q where "q = snd (qrun ops newRWQueue)"
  have i: "rwq_inv q" unfolding q_def by (rule rwq_inv_qrun [OF rwq_inv_new])
  then have ic: "rwq_inv (close q)" by (simp add: rwq_inv_close)
  have c: "q_closed (close q)" by (rule q_closed_close)
  with ic have e: "q_queue (close q) = []" "q_pendingReads (close q) = []"
    by (simp_all add: rwq_inv_def)
  show ?thesis
    unfolding Let_def q_def [symmetric]
    using c e i
    by (simp add: getResume_close woken_close get_closed push_closed qrun_closed)
qed

theorem close_ends_reads_and_writes_witness:
  "q_pendingReads (snd (qrun [Get 0, Get 1] (newRWQueue :: nat RWQueue))) = [0, 1]
   \<and> getResume 0 (close (snd (qrun [Get 0, Get 1] (newRWQueue :: nat RWQueue)))) = Some (Inl QUEUE_CLOSED)
   \<and> getResume 1 (close (snd (qrun [Get 0, Get 1] (newRWQueue :: nat RWQueue)))) = Some (Inl QUEUE_CLOSED)
   \<and> fst (push 7 (close (snd (qrun [Get 0, Get 1] (newRWQueue :: nat RWQueue))))) = False
   \<and> fst (get 2 (close (snd (qrun [Get 0, Get 1] (newRWQueue :: nat RWQueue))))) = Some (Inl QUEUE_CLOSED)"
proof -
  have p: "q_pendingReads (snd (qrun [Get 0, Get 1] (newRWQueue :: nat RWQueue))) = [0, 1]"
    by (simp add: get_def getAnyImpl_def getResume_def newRWQueue_def newPendingRead_def)
  show ?thesis
    using p close_ends_reads_and_writes [of "[Get 0, Get 1] :: nat QOp list"]
    by (simp add: Let_def)
qed

subsection \<open>Order of delivery\<close>






section \<open>Properties of the KvStore values\<close>

subsection \<open>The comparison order\<close>

lemma compareTtlVersion_cases:
  "compareTtlVersion v1 v2 = 1 \<longleftrightarrow> ttlVersion v2 <s ttlVersion v1"
  "compareTtlVersion v1 v2 = - 1 \<longleftrightarrow> ttlVersion v1 <s ttlVersion v2"
  "compareTtlVersion v1 v2 = 0 \<longleftrightarrow> ttlVersion v1 = ttlVersion v2"
  "compareTtlVersion v1 v2 \<noteq> - 2"
  using signed.less_linear [of "ttlVersion v1" "ttlVersion v2"]
  by (auto simp: compareTtlVersion_def dest: signed.less_asym)

lemma compareValues_version:
  "version v1 \<noteq> version v2 \<Longrightarrow>
     compareValues v1 v2 = (if version v1 > version v2 then 1 else - 1)"
  by (simp add: compareValues_def compareContent_def Let_def)

lemma compareValues_originator:
  "version v1 = version v2 \<Longrightarrow> originatorId v1 \<noteq> originatorId v2 \<Longrightarrow>
     compareValues v1 v2 = (if originatorId v1 > originatorId v2 then 1 else - 1)"
  by (simp add: compareValues_def compareContent_def Let_def)

lemma compareValues_bodies:
  "version v1 = version v2 \<Longrightarrow> originatorId v1 = originatorId v2 \<Longrightarrow>
   body v1 = Some b1 \<Longrightarrow> body v2 = Some b2 \<Longrightarrow>
     compareValues v1 v2 = (if b1 \<noteq> b2 then (if b1 > b2 then 1 else - 1) else compareTtlVersion v1 v2)"
  by (simp add: compareValues_def compareContent_def Let_def)

lemma compareValues_no_body:
  "version v1 = version v2 \<Longrightarrow> originatorId v1 = originatorId v2 \<Longrightarrow>
   body v1 = None \<or> body v2 = None \<Longrightarrow>
     compareValues v1 v2 =
       (if hash v1 \<noteq> None \<and> hash v1 = hash v2 then compareTtlVersion v1 v2 else - 2)"
  by (auto simp: compareValues_def compareContent_def Let_def split: option.splits)

lemma compareValues_present:
  assumes "body v1 = Some b1" "body v2 = Some b2"
  shows "(compareValues v1 v2 = 1 \<longleftrightarrow>
         version v1 > version v2
         \<or> version v1 = version v2
           \<and> (originatorId v1 > originatorId v2
              \<or> originatorId v1 = originatorId v2
                \<and> (b1 > b2 \<or> b1 = b2 \<and> ttlVersion v2 <s ttlVersion v1)))
      \<and> (compareValues v1 v2 = - 1 \<longleftrightarrow>
         version v1 < version v2
         \<or> version v1 = version v2
           \<and> (originatorId v1 < originatorId v2
              \<or> originatorId v1 = originatorId v2
                \<and> (b1 < b2 \<or> b1 = b2 \<and> ttlVersion v1 <s ttlVersion v2)))
      \<and> (compareValues v1 v2 = 0 \<longleftrightarrow>
         version v1 = version v2 \<and> originatorId v1 = originatorId v2 \<and> b1 = b2
         \<and> ttlVersion v1 = ttlVersion v2)
      \<and> compareValues v1 v2 \<noteq> - 2"
proof -
  consider (vlt) "version v1 < version v2" | (vgt) "version v1 > version v2"
    | (olt) "version v1 = version v2" "originatorId v1 < originatorId v2"
    | (ogt) "version v1 = version v2" "originatorId v1 > originatorId v2"
    | (blt) "version v1 = version v2" "originatorId v1 = originatorId v2" "b1 < b2"
    | (bgt) "version v1 = version v2" "originatorId v1 = originatorId v2" "b1 > b2"
    | (eq) "version v1 = version v2" "originatorId v1 = originatorId v2" "b1 = b2"
    using less_linear [of "version v1" "version v2"]
      less_linear [of "originatorId v1" "originatorId v2"] less_linear [of b1 b2]
    by blast
  then show ?thesis
  proof cases
    case vlt
    then have "\<not> version v2 < version v1" "version v1 \<noteq> version v2" by auto
    then show ?thesis using vlt by (simp add: compareValues_version)
  next
    case vgt
    then have "\<not> version v1 < version v2" "version v1 \<noteq> version v2" by auto
    then show ?thesis using vgt by (simp add: compareValues_version)
  next
    case olt
    then have "\<not> originatorId v2 < originatorId v1" "originatorId v1 \<noteq> originatorId v2" by auto
    then show ?thesis using olt by (simp add: compareValues_originator)
  next
    case ogt
    then have "\<not> originatorId v1 < originatorId v2" "originatorId v1 \<noteq> originatorId v2" by auto
    then show ?thesis using ogt by (simp add: compareValues_originator)
  next
    case blt
    then have "\<not> b2 < b1" "b1 \<noteq> b2" by auto
    then show ?thesis using blt assms by (simp add: compareValues_bodies)
  next
    case bgt
    then have "\<not> b1 < b2" "b1 \<noteq> b2" by auto
    then show ?thesis using bgt assms by (simp add: compareValues_bodies)
  next
    case eq
    then show ?thesis using assms compareTtlVersion_cases [of v1 v2]
      by (simp add: compareValues_bodies)
  qed
qed

lemma compareValues_missing:
  assumes "version v1 = version v2" "originatorId v1 = originatorId v2"
    "body v1 = None \<or> body v2 = None"
  shows "compareValues v1 v2 =
          (if hash v1 \<noteq> None \<and> hash v1 = hash v2
           then (if ttlVersion v1 \<noteq> ttlVersion v2
                 then (if ttlVersion v2 <s ttlVersion v1 then 1 else - 1) else 0)
           else - 2)"
  using compareValues_no_body [OF assms]
  by (cases "hash v1"; cases "hash v2") (simp_all add: compareTtlVersion_def)

text \<open>
  Claim C1. For any two values, \<open>compareValues\<close> decides by version, then originator
  id (lexicographic), then value bytes, then ttl version. With both bodies present the
  result is 1 exactly when v1 is higher in that order, -1 exactly when v2 is, 0 exactly
  when the four agree, and never -2. Whatever bodies are present, a difference of version
  decides, and with equal versions a difference of originator id decides. When version
  and originator id agree and a body is missing on either side (a full value against a
  hash-only one, or two hash-only values): if both hashes are there and equal, the value
  bytes tie and the ttl version decides (1, -1, or 0 when it agrees too); otherwise the
  bytes would be needed and the result is -2. In particular, for two values without
  bodies that agree on version and originator id and whose hashes do not settle the
  bytes, the result is -2.
\<close>

theorem compareValues_order:
  "(body v1 = Some b1 \<and> body v2 = Some b2 \<longrightarrow>
      (compareValues v1 v2 = 1 \<longleftrightarrow>
         version v1 > version v2
         \<or> version v1 = version v2
           \<and> (originatorId v1 > originatorId v2
              \<or> originatorId v1 = originatorId v2
                \<and> (b1 > b2 \<or> b1 = b2 \<and> ttlVersion v2 <s ttlVersion v1)))
      \<and> (compareValues v1 v2 = - 1 \<longleftrightarrow>
         version v1 < version v2
         \<or> version v1 = version v2
           \<and> (originatorId v1 < originatorId v2
              \<or> originatorId v1 = originatorId v2
                \<and> (b1 < b2 \<or> b1 = b2 \<and> ttlVersion v1 <s ttlVersion v2)))
      \<and> (compareValues v1 v2 = 0 \<longleftrightarrow>
         version v1 = version v2 \<and> originatorId v1 = originatorId v2 \<and> b1 = b2
         \<and> ttlVersion v1 = ttlVersion v2)
      \<and> compareValues v1 v2 \<noteq> - 2)
   \<and> (body v1 = None \<and> body v2 = None \<longrightarrow>
        (version v1 \<noteq> version v2 \<longrightarrow>
           compareValues v1 v2 = (if version v1 > version v2 then 1 else - 1))
        \<and> (version v1 = version v2 \<and> originatorId v1 \<noteq> originatorId v2 \<longrightarrow>
           compareValues v1 v2 = (if originatorId v1 > originatorId v2 then 1 else - 1))
        \<and> (version v1 = version v2 \<and> originatorId v1 = originatorId v2
            \<and> \<not> (hash v1 \<noteq> None \<and> hash v1 = hash v2) \<longrightarrow>
           compareValues v1 v2 = - 2))
   \<and> (version v1 \<noteq> version v2 \<longrightarrow>
        compareValues v1 v2 = (if version v1 > version v2 then 1 else - 1))
   \<and> (version v1 = version v2 \<and> originatorId v1 \<noteq> originatorId v2 \<longrightarrow>
        compareValues v1 v2 = (if originatorId v1 > originatorId v2 then 1 else - 1))
   \<and> (version v1 = version v2 \<and> originatorId v1 = originatorId v2
       \<and> (body v1 = None \<or> body v2 = None) \<longrightarrow>
        compareValues v1 v2 =
          (if hash v1 \<noteq> None \<and> hash v1 = hash v2
           then (if ttlVersion v1 \<noteq> ttlVersion v2
                 then (if ttlVersion v2 <s ttlVersion v1 then 1 else - 1) else 0)
           else - 2))"
proof (intro conjI)
  show "body v1 = Some b1 \<and> body v2 = Some b2 \<longrightarrow>
      (compareValues v1 v2 = 1 \<longleftrightarrow>
         version v1 > version v2
         \<or> version v1 = version v2
           \<and> (originatorId v1 > originatorId v2
              \<or> originatorId v1 = originatorId v2
                \<and> (b1 > b2 \<or> b1 = b2 \<and> ttlVersion v2 <s ttlVersion v1)))
      \<and> (compareValues v1 v2 = - 1 \<longleftrightarrow>
         version v1 < version v2
         \<or> version v1 = version v2
           \<and> (originatorId v1 < originatorId v2
              \<or> originatorId v1 = originatorId v2
                \<and> (b1 < b2 \<or> b1 = b2 \<and> ttlVersion v1 <s ttlVersion v2)))
      \<and> (compareValues v1 v2 = 0 \<longleftrightarrow>
         version v1 = version v2 \<and> originatorId v1 = originatorId v2 \<and> b1 = b2
         \<and> ttlVersion v1 = ttlVersion v2)
      \<and> compareValues v1 v2 \<noteq> - 2"
    using compareValues_present [of v1 b1 v2 b2] by blast
next
  show "body v1 = None \<and> body v2 = None \<longrightarrow>
        (version v1 \<noteq> version v2 \<longrightarrow>
           compareValues v1 v2 = (if version v1 > version v2 then 1 else - 1))
        \<and> (version v1 = version v2 \<and> originatorId v1 \<noteq> originatorId v2 \<longrightarrow>
           compareValues v1 v2 = (if originatorId v1 > originatorId v2 then 1 else - 1))
        \<and> (version v1 = version v2 \<and> originatorId v1 = originatorId v2
            \<and> \<not> (hash v1 \<noteq> None \<and> hash v1 = hash v2) \<longrightarrow>
           compareValues v1 v2 = - 2)"
  proof (intro impI conjI)
    assume "version v1 \<noteq> version v2"
    then show "compareValues v1 v2 = (if version v1 > version v2 then 1 else - 1)"
      by (rule compareValues_version)
  next
    assume "version v1 = version v2 \<and> originatorId v1 \<noteq> originatorId v2"
    then show "compareValues v1 v2 = (if originatorId v1 > originatorId v2 then 1 else - 1)"
      by (simp add: compareValues_originator)
  next
    assume n: "body v1 = None \<and> body v2 = None"
      and e: "version v1 = version v2 \<and> originatorId v1 = originatorId v2
            \<and> \<not> (hash v1 \<noteq> None \<and> hash v1 = hash v2)"
    have "compareValues v1 v2 =
       (if hash v1 \<noteq> None \<and> hash v1 = hash v2 then compareTtlVersion v1 v2 else - 2)"
      using n e by (intro compareValues_no_body) simp_all
    moreover have "\<not> (hash v1 \<noteq> None \<and> hash v1 = hash v2)" using e by blast
    ultimately show "compareValues v1 v2 = - 2" by (simp only: if_False)
  qed
next
  show "version v1 \<noteq> version v2 \<longrightarrow>
        compareValues v1 v2 = (if version v1 > version v2 then 1 else - 1)"
    using compareValues_version [of v1 v2] by blast
next
  show "version v1 = version v2 \<and> originatorId v1 \<noteq> originatorId v2 \<longrightarrow>
        compareValues v1 v2 = (if originatorId v1 > originatorId v2 then 1 else - 1)"
    using compareValues_originator [of v1 v2] by blast
next
  show "version v1 = version v2 \<and> originatorId v1 = originatorId v2
       \<and> (body v1 = None \<or> body v2 = None) \<longrightarrow>
        compareValues v1 v2 =
          (if hash v1 \<noteq> None \<and> hash v1 = hash v2
           then (if ttlVersion v1 \<noteq> ttlVersion v2
                 then (if ttlVersion v2 <s ttlVersion v1 then 1 else - 1) else 0)
           else - 2)"
    using compareValues_missing [of v1 v2] by blast
qed

theorem compareValues_order_witness:
  "body (valueEx 1 ''node1'' (Some [1, 2]) 0) = Some [1, 2]
   \<and> body (valueEx 1 ''node1'' (Some [1, 3]) 5) = Some [1, 3]
   \<and> compareValues (valueEx 1 ''node1'' (Some [1, 2]) 0) (valueEx 1 ''node1'' (Some [1, 3]) 5) = - 1
   \<and> body (valueEx 1 ''node1'' None 7) = None
   \<and> body (valueEx 1 ''node1'' None 5) = None
   \<and> compareValues (valueEx 1 ''node1'' None 7) (valueEx 1 ''node1'' None 5) = - 2
   \<and> version (valueEx 2 ''node1'' None 0) \<noteq> version (valueEx 1 ''node1'' (Some [1]) 0)
   \<and> compareValues (valueEx 2 ''node1'' None 0) (valueEx 1 ''node1'' (Some [1]) 0) = 1
   \<and> originatorId (valueEx 1 ''node1'' None 0) \<noteq> originatorId (valueEx 1 ''node2'' (Some [1]) 0)
   \<and> compareValues (valueEx 1 ''node1'' None 0) (valueEx 1 ''node2'' (Some [1]) 0) = - 1
   \<and> body ((valueEx 1 ''node1'' None 5)\<lparr>hash := Some 42\<rparr>) = None
   \<and> compareValues ((valueEx 1 ''node1'' (Some [1, 2]) 7)\<lparr>hash := Some 42\<rparr>)
        ((valueEx 1 ''node1'' None 5)\<lparr>hash := Some 42\<rparr>) = 1
   \<and> compareValues ((valueEx 1 ''node1'' (Some [1, 2]) 5)\<lparr>hash := Some 42\<rparr>)
        ((valueEx 1 ''node1'' None 5)\<lparr>hash := Some 42\<rparr>) = 0
   \<and> compareValues ((valueEx 1 ''node1'' (Some [1, 2]) 7)\<lparr>hash := Some 43\<rparr>)
        ((valueEx 1 ''node1'' None 5)\<lparr>hash := Some 42\<rparr>) = - 2"
proof -
  have b: "body (valueEx 1 ''node1'' (Some [1, 2]) 0) = Some [1, 2]"
    "body (valueEx 1 ''node1'' (Some [1, 3]) 5) = Some [1, 3]"
    "body (valueEx 1 ''node1'' None 7) = None" "body (valueEx 1 ''node1'' None 5) = None"
    "body ((valueEx 1 ''node1'' None 5)\<lparr>hash := Some 42\<rparr>) = None"
    by (simp_all add: valueEx_def)
  have f: "version (valueEx 1 ''node1'' (Some [1, 2]) 0) = version (valueEx 1 ''node1'' (Some [1, 3]) 5)"
    "originatorId (valueEx 1 ''node1'' (Some [1, 2]) 0) = originatorId (valueEx 1 ''node1'' (Some [1, 3]) 5)"
    "([1, 2] :: 8 word list) < [1, 3]"
    "version (valueEx 1 ''node1'' None 7) = version (valueEx 1 ''node1'' None 5)"
    "originatorId (valueEx 1 ''node1'' None 7) = originatorId (valueEx 1 ''node1'' None 5)"
    "hash (valueEx 1 ''node1'' None 7) = None"
    by (simp_all add: valueEx_def)
  have g: "version (valueEx 2 ''node1'' None 0) \<noteq> version (valueEx 1 ''node1'' (Some [1]) 0)"
    "version (valueEx 2 ''node1'' None 0) > version (valueEx 1 ''node1'' (Some [1]) 0)"
    "version (valueEx 1 ''node1'' None 0) = version (valueEx 1 ''node2'' (Some [1]) 0)"
    "originatorId (valueEx 1 ''node1'' None 0) \<noteq> originatorId (valueEx 1 ''node2'' (Some [1]) 0)"
    "\<not> originatorId (valueEx 1 ''node1'' None 0) > originatorId (valueEx 1 ''node2'' (Some [1]) 0)"
    by (simp_all add: valueEx_def)
  have a: "compareValues (valueEx 1 ''node1'' (Some [1, 2]) 0) (valueEx 1 ''node1'' (Some [1, 3]) 5) = - 1"
    "compareValues (valueEx 1 ''node1'' None 7) (valueEx 1 ''node1'' None 5) = - 2"
    using b f
      compareValues_order [of "valueEx 1 ''node1'' (Some [1, 2]) 0" "[1, 2]"
                              "valueEx 1 ''node1'' (Some [1, 3]) 5" "[1, 3]"]
      compareValues_order [of "valueEx 1 ''node1'' None 7" "[]" "valueEx 1 ''node1'' None 5" "[]"]
    by simp_all
  have c: "compareValues (valueEx 2 ''node1'' None 0) (valueEx 1 ''node1'' (Some [1]) 0) = 1"
    "compareValues (valueEx 1 ''node1'' None 0) (valueEx 1 ''node2'' (Some [1]) 0) = - 1"
    using g
      compareValues_order [of "valueEx 2 ''node1'' None 0" "[]" "valueEx 1 ''node1'' (Some [1]) 0" "[]"]
      compareValues_order [of "valueEx 1 ''node1'' None 0" "[]" "valueEx 1 ''node2'' (Some [1]) 0" "[]"]
    by simp_all
  have h: "(5 :: 64 word) <s 7" "(7 :: 64 word) \<noteq> 5"
    by (simp_all add: word_sless_alt)
  have d: "compareValues ((valueEx 1 ''node1'' (Some [1, 2]) 7)\<lparr>hash := Some 42\<rparr>)
        ((valueEx 1 ''node1'' None 5)\<lparr>hash := Some 42\<rparr>) = 1"
    using h compareValues_order [of "(valueEx 1 ''node1'' (Some [1, 2]) 7)\<lparr>hash := Some 42\<rparr>" "[]"
        "(valueEx 1 ''node1'' None 5)\<lparr>hash := Some 42\<rparr>" "[]"]
    by (simp add: valueEx_def)
  have e: "compareValues ((valueEx 1 ''node1'' (Some [1, 2]) 5)\<lparr>hash := Some 42\<rparr>)
        ((valueEx 1 ''node1'' None 5)\<lparr>hash := Some 42\<rparr>) = 0"
    using compareValues_order [of "(valueEx 1 ''node1'' (Some [1, 2]) 5)\<lparr>hash := Some 42\<rparr>" "[]"
        "(valueEx 1 ''node1'' None 5)\<lparr>hash := Some 42\<rparr>" "[]"]
    by (simp add: valueEx_def)
  have f2: "compareValues ((valueEx 1 ''node1'' (Some [1, 2]) 7)\<lparr>hash := Some 43\<rparr>)
        ((valueEx 1 ''node1'' None 5)\<lparr>hash := Some 42\<rparr>) = - 2"
    using compareValues_order [of "(valueEx 1 ''node1'' (Some [1, 2]) 7)\<lparr>hash := Some 43\<rparr>" "[]"
        "(valueEx 1 ''node1'' None 5)\<lparr>hash := Some 42\<rparr>" "[]"]
    by (simp add: valueEx_def)
  show ?thesis using b g(1,4) a c d e f2 by simp
qed

subsection \<open>Idempotence of the merge\<close>

lemma compareContent_self: "compareContent v v = 0 \<or> compareContent v v = - 2"
  by (cases "body v") (simp_all add: compareContent_def)

lemma compareContent_refreshed:
  "compareContent v (w\<lparr>ttl := t, ttlVersion := tv\<rparr>) = compareContent v w"
  by (cases "hash v"; cases "hash w"; cases "body v"; cases "body w")
     (simp_all add: compareContent_def)

lemma compareContent_zero_iff:
  "compareContent v w = 0 \<longleftrightarrow>
     version v = version w \<and> originatorId v = originatorId w
     \<and> (body v \<noteq> None \<and> body v = body w
        \<or> (body v = None \<or> body w = None) \<and> hash v \<noteq> None \<and> hash v = hash w)"
  by (cases "hash v"; cases "hash w"; cases "body v"; cases "body w")
     (auto simp: compareContent_def)

lemma compareContent_version:
  "version w < version v \<Longrightarrow> compareContent v w = 1"
  by (auto simp: compareContent_def)

lemma mergeKeyValue_other:
  "k' \<noteq> fst kv \<Longrightarrow>
     fst (mergeKeyValue f t kv st) k' = fst st k' \<and> snd (mergeKeyValue f t kv st) k' = snd st k'"
  by (auto simp: mergeKeyValue_def Let_def split: option.splits)

lemma mergeKeyValue_entry_cong:
  "fst st (fst kv) = fst st' (fst kv) \<Longrightarrow>
     fst (mergeKeyValue f t kv st) (fst kv) = fst (mergeKeyValue f t kv st') (fst kv)"
  by (auto simp: mergeKeyValue_def Let_def split: option.splits)

lemma mergeKeyValue_again:
  assumes "S (fst kv) = fst (mergeKeyValue f t kv st) (fst kv)"
  shows "mergeKeyValue f t kv (S, D) = (S, D)"
proof (cases "case f of None \<Rightarrow> False | Some keyMatch \<Rightarrow> \<not> keyMatch (fst kv) (snd kv)")
  case True
  then show ?thesis by (simp add: mergeKeyValue_def Let_def)
next
  case nf: False
  note self = compareContent_self [of "snd kv"]
  have after_v: "mergeKeyValue f t kv (S, D) = (S, D)" if "S (fst kv) = Some (snd kv)"
    using that nf self by (auto simp: mergeKeyValue_def Let_def)
  show ?thesis
  proof (cases "fst st (fst kv)")
    case None
    show ?thesis
    proof (cases "ttl (snd kv) <s t")
      case True
      then have "S (fst kv) = None" using assms nf None by (simp add: mergeKeyValue_def Let_def)
      then show ?thesis using nf True by (simp add: mergeKeyValue_def Let_def)
    next
      case False
      then have "S (fst kv) = Some (snd kv)"
        using assms nf None by (simp add: mergeKeyValue_def Let_def)
      then show ?thesis by (rule after_v)
    qed
  next
    case (Some w)
    let ?c = "compareContent (snd kv) w"
    show ?thesis
    proof (cases "?c = 1")
      case True
      then have "S (fst kv) = Some (snd kv)"
        using assms nf Some by (simp add: mergeKeyValue_def Let_def)
      then show ?thesis by (rule after_v)
    next
      case c1: False
      show ?thesis
      proof (cases "?c = 0 \<and> ttlVersion w <s ttlVersion (snd kv)")
        case True
        let ?w' = "w\<lparr>ttl := ttl (snd kv), ttlVersion := ttlVersion (snd kv)\<rparr>"
        have s: "S (fst kv) = Some ?w'"
          using assms nf Some True by (simp add: mergeKeyValue_def Let_def)
        have c: "compareContent (snd kv) ?w' = 0"
          using True by (simp add: compareContent_refreshed)
        have "\<not> ttlVersion ?w' <s ttlVersion (snd kv)" by simp
        then show ?thesis using nf s c by (simp add: mergeKeyValue_def Let_def)
      next
        case False
        then have "S (fst kv) = Some w"
          using assms nf Some c1 by (auto simp: mergeKeyValue_def Let_def)
        then show ?thesis using nf c1 False
          by (auto simp: mergeKeyValue_def Let_def)
      qed
    qed
  qed
qed

lemma mergeLoop_other:
  "k \<notin> fst ` set upd \<Longrightarrow> fst (mergeLoop f t upd st) k = fst st k"
proof (induction upd arbitrary: st)
  case Nil
  show ?case by simp
next
  case (Cons x rest)
  then have "k \<noteq> fst x" "k \<notin> fst ` set rest" by auto
  then show ?case using Cons.IH [of "mergeKeyValue f t x st"] mergeKeyValue_other [of k x f t st]
    by simp
qed

lemma mergeLoop_entry:
  assumes "distinct (map fst upd)" "kv \<in> set upd"
  shows "fst (mergeLoop f t upd st) (fst kv) = fst (mergeKeyValue f t kv st) (fst kv)"
  using assms
proof (induction upd arbitrary: st)
  case Nil
  then show ?case by simp
next
  case (Cons x rest)
  show ?case
  proof (cases "kv = x")
    case True
    then have "fst kv \<notin> fst ` set rest" using Cons.prems(1) by auto
    then show ?thesis using True mergeLoop_other [of "fst kv" rest f t "mergeKeyValue f t x st"]
      by simp
  next
    case False
    then have in_rest: "kv \<in> set rest" using Cons.prems(2) by simp
    then have "fst kv \<in> fst ` set rest" by (rule imageI)
    moreover have "fst x \<notin> fst ` set rest" using Cons.prems(1) by simp
    ultimately have ne: "fst kv \<noteq> fst x" by metis
    have d: "distinct (map fst rest)" using Cons.prems(1) by simp
    have "fst (mergeLoop f t rest (mergeKeyValue f t x st)) (fst kv)
            = fst (mergeKeyValue f t kv (mergeKeyValue f t x st)) (fst kv)"
      by (rule Cons.IH [OF d in_rest])
    also have "\<dots> = fst (mergeKeyValue f t kv st) (fst kv)"
      by (rule mergeKeyValue_entry_cong) (simp add: mergeKeyValue_other [OF ne])
    finally show ?thesis by simp
  qed
qed

lemma mergeLoop_noop:
  "(\<And>kv. kv \<in> set upd \<Longrightarrow> mergeKeyValue f t kv st = st) \<Longrightarrow> mergeLoop f t upd st = st"
  by (induction upd) simp_all

text \<open>
  Claim C2. For every store, every update (a map: its keys are distinct), every filter
  and every ttl threshold: merging the update again into the store that resulted from
  merging it leaves that store as it is and returns an empty map of updated values.
  The steps of the merge that change the store are these. A value for a key that the
  store lacks is accepted and enters the delta, unless its ttl is below the threshold.
  A value with a higher version replaces the stored one and enters the delta. A value
  that ties with the stored one on version, originator id and value bytes (or, when a
  body is missing, on the hash: a ttl refresh) and has the greater ttl version refreshes
  ttl and ttl version of the stored value, which keeps its body, and the delta stays
  empty.
\<close>

theorem mergeKeyValues_idempotent:
  "(distinct (map fst update) \<longrightarrow>
      mergeKeyValues filters ttlThreshold
        (fst (mergeKeyValues filters ttlThreshold kvStore update)) update
      = (fst (mergeKeyValues filters ttlThreshold kvStore update), Map.empty))
   \<and> (kvStore k = None \<and> (case filters of None \<Rightarrow> True | Some keyMatch \<Rightarrow> keyMatch k v_in)
       \<and> \<not> ttl v_in <s ttlThreshold \<longrightarrow>
      mergeKeyValues filters ttlThreshold kvStore [(k, v_in)]
        = (kvStore(k \<mapsto> v_in), [k \<mapsto> v_in]))
   \<and> (kvStore k = Some v_local
       \<and> (case filters of None \<Rightarrow> True | Some keyMatch \<Rightarrow> keyMatch k v_in)
       \<and> version v_local < version v_in \<longrightarrow>
      mergeKeyValues filters ttlThreshold kvStore [(k, v_in)]
        = (kvStore(k \<mapsto> v_in), [k \<mapsto> v_in]))
   \<and> (kvStore k = Some v_local
       \<and> (case filters of None \<Rightarrow> True | Some keyMatch \<Rightarrow> keyMatch k v_in)
       \<and> version v_in = version v_local \<and> originatorId v_in = originatorId v_local
       \<and> (body v_in \<noteq> None \<and> body v_in = body v_local
          \<or> (body v_in = None \<or> body v_local = None)
            \<and> hash v_in \<noteq> None \<and> hash v_in = hash v_local)
       \<and> ttlVersion v_local <s ttlVersion v_in \<longrightarrow>
      mergeKeyValues filters ttlThreshold kvStore [(k, v_in)]
        = (kvStore(k \<mapsto> v_local\<lparr>ttl := ttl v_in, ttlVersion := ttlVersion v_in\<rparr>), Map.empty))"
proof (intro conjI impI)
  assume d: "distinct (map fst update)"
  let ?st0 = "(kvStore, Map.empty :: string \<rightharpoonup> Value)"
  let ?S = "fst (mergeLoop filters ttlThreshold update ?st0)"
  have "mergeKeyValue filters ttlThreshold kv (?S, Map.empty) = (?S, Map.empty)"
    if "kv \<in> set update" for kv
  proof (rule mergeKeyValue_again)
    have "?S (fst kv) = fst (mergeKeyValue filters ttlThreshold kv ?st0) (fst kv)"
      using d that by (rule mergeLoop_entry)
    then show "?S (fst kv) = fst (mergeKeyValue filters ttlThreshold kv ?st0) (fst kv)" .
  qed
  then have "mergeLoop filters ttlThreshold update (?S, Map.empty) = (?S, Map.empty)"
    by (rule mergeLoop_noop)
  then show "mergeKeyValues filters ttlThreshold
        (fst (mergeKeyValues filters ttlThreshold kvStore update)) update
      = (fst (mergeKeyValues filters ttlThreshold kvStore update), Map.empty)"
    by (simp add: mergeKeyValues_def)
next
  assume "kvStore k = None \<and> (case filters of None \<Rightarrow> True | Some keyMatch \<Rightarrow> keyMatch k v_in)
       \<and> \<not> ttl v_in <s ttlThreshold"
  then show "mergeKeyValues filters ttlThreshold kvStore [(k, v_in)]
        = (kvStore(k \<mapsto> v_in), [k \<mapsto> v_in])"
    by (cases filters) (simp_all add: mergeKeyValues_def mergeKeyValue_def Let_def)
next
  assume a: "kvStore k = Some v_local
       \<and> (case filters of None \<Rightarrow> True | Some keyMatch \<Rightarrow> keyMatch k v_in)
       \<and> version v_local < version v_in"
  then have "compareContent v_in v_local = 1" by (simp add: compareContent_version)
  then show "mergeKeyValues filters ttlThreshold kvStore [(k, v_in)]
        = (kvStore(k \<mapsto> v_in), [k \<mapsto> v_in])"
    using a by (cases filters) (simp_all add: mergeKeyValues_def mergeKeyValue_def Let_def)
next
  assume a: "kvStore k = Some v_local
       \<and> (case filters of None \<Rightarrow> True | Some keyMatch \<Rightarrow> keyMatch k v_in)
       \<and> version v_in = version v_local \<and> originatorId v_in = originatorId v_local
       \<and> (body v_in \<noteq> None \<and> body v_in = body v_local
          \<or> (body v_in = None \<or> body v_local = None)
            \<and> hash v_in \<noteq> None \<and> hash v_in = hash v_local)
       \<and> ttlVersion v_local <s ttlVersion v_in"
  then have "compareContent v_in v_local = 0"
    by (simp add: compareContent_zero_iff)
  then show "mergeKeyValues filters ttlThreshold kvStore [(k, v_in)]
        = (kvStore(k \<mapsto> v_local\<lparr>ttl := ttl v_in, ttlVersion := ttlVersion v_in\<rparr>), Map.empty)"
    using a by (cases filters) (simp_all add: mergeKeyValues_def mergeKeyValue_def Let_def)
qed

theorem mergeKeyValues_idempotent_witness:
  "distinct (map fst [(''adj:node1'', valueEx 2 ''node1'' (Some [1, 2]) 0),
                      (''prefix:node2'', valueEx 1 ''node2'' (Some [7]) 0)])
   \<and> mergeKeyValues None 0
        (fst (mergeKeyValues None 0 [''adj:node1'' \<mapsto> valueEx 1 ''node1'' (Some [1]) 3]
               [(''adj:node1'', valueEx 2 ''node1'' (Some [1, 2]) 0),
                (''prefix:node2'', valueEx 1 ''node2'' (Some [7]) 0)]))
        [(''adj:node1'', valueEx 2 ''node1'' (Some [1, 2]) 0),
         (''prefix:node2'', valueEx 1 ''node2'' (Some [7]) 0)]
      = (fst (mergeKeyValues None 0 [''adj:node1'' \<mapsto> valueEx 1 ''node1'' (Some [1]) 3]
               [(''adj:node1'', valueEx 2 ''node1'' (Some [1, 2]) 0),
                (''prefix:node2'', valueEx 1 ''node2'' (Some [7]) 0)]), Map.empty)
   \<and> snd (mergeKeyValues None 0 [''adj:node1'' \<mapsto> valueEx 1 ''node1'' (Some [1]) 3]
               [(''adj:node1'', valueEx 2 ''node1'' (Some [1, 2]) 0),
                (''prefix:node2'', valueEx 1 ''node2'' (Some [7]) 0)]) ''adj:node1''
      = Some (valueEx 2 ''node1'' (Some [1, 2]) 0)
   \<and> mergeKeyValues None 0 Map.empty [(''adj:node1'', valueEx 1 ''node1'' (Some [1]) 3)]
      = ([''adj:node1'' \<mapsto> valueEx 1 ''node1'' (Some [1]) 3],
         [''adj:node1'' \<mapsto> valueEx 1 ''node1'' (Some [1]) 3])
   \<and> mergeKeyValues None 0 [''adj:node1'' \<mapsto> valueEx 1 ''node1'' (Some [1]) 3]
        [(''adj:node1'', valueEx 2 ''node1'' (Some [1, 2]) 0)]
      = ([''adj:node1'' \<mapsto> valueEx 2 ''node1'' (Some [1, 2]) 0],
         [''adj:node1'' \<mapsto> valueEx 2 ''node1'' (Some [1, 2]) 0])
   \<and> mergeKeyValues None 0 [''adj:node1'' \<mapsto> (valueEx 1 ''node1'' (Some [1]) 3)\<lparr>hash := Some 9\<rparr>]
        [(''adj:node1'', (valueEx 1 ''node1'' None 5)\<lparr>hash := Some 9\<rparr>)]
      = ([''adj:node1'' \<mapsto> (valueEx 1 ''node1'' (Some [1]) 5)\<lparr>hash := Some 9\<rparr>], Map.empty)"
proof -
  have h: "distinct (map fst [(''adj:node1'', valueEx 2 ''node1'' (Some [1, 2]) 0),
                      (''prefix:node2'', valueEx 1 ''node2'' (Some [7]) 0)])"
    by simp
  have d: "snd (mergeKeyValues None 0 [''adj:node1'' \<mapsto> valueEx 1 ''node1'' (Some [1]) 3]
               [(''adj:node1'', valueEx 2 ''node1'' (Some [1, 2]) 0),
                (''prefix:node2'', valueEx 1 ''node2'' (Some [7]) 0)]) ''adj:node1''
      = Some (valueEx 2 ''node1'' (Some [1, 2]) 0)"
    by (simp add: mergeKeyValues_def mergeKeyValue_def compareContent_def valueEx_def Let_def)
  have i: "mergeKeyValues None 0
        (fst (mergeKeyValues None 0 [''adj:node1'' \<mapsto> valueEx 1 ''node1'' (Some [1]) 3]
               [(''adj:node1'', valueEx 2 ''node1'' (Some [1, 2]) 0),
                (''prefix:node2'', valueEx 1 ''node2'' (Some [7]) 0)]))
        [(''adj:node1'', valueEx 2 ''node1'' (Some [1, 2]) 0),
         (''prefix:node2'', valueEx 1 ''node2'' (Some [7]) 0)]
      = (fst (mergeKeyValues None 0 [''adj:node1'' \<mapsto> valueEx 1 ''node1'' (Some [1]) 3]
               [(''adj:node1'', valueEx 2 ''node1'' (Some [1, 2]) 0),
                (''prefix:node2'', valueEx 1 ''node2'' (Some [7]) 0)]), Map.empty)"
    using h mergeKeyValues_idempotent
      [of "[(''adj:node1'', valueEx 2 ''node1'' (Some [1, 2]) 0),
            (''prefix:node2'', valueEx 1 ''node2'' (Some [7]) 0)]" None 0
          "[''adj:node1'' \<mapsto> valueEx 1 ''node1'' (Some [1]) 3]", THEN conjunct1]
    by blast
  have n: "mergeKeyValues None 0 Map.empty [(''adj:node1'', valueEx 1 ''node1'' (Some [1]) 3)]
      = ([''adj:node1'' \<mapsto> valueEx 1 ''node1'' (Some [1]) 3],
         [''adj:node1'' \<mapsto> valueEx 1 ''node1'' (Some [1]) 3])"
    using mergeKeyValues_idempotent
      [where kvStore = Map.empty and k = "''adj:node1''" and filters = None and ttlThreshold = 0
         and v_in = "valueEx 1 ''node1'' (Some [1]) 3", THEN conjunct2, THEN conjunct1]
    by (simp add: valueEx_def word_sless_alt)
  have r: "mergeKeyValues None 0 [''adj:node1'' \<mapsto> valueEx 1 ''node1'' (Some [1]) 3]
        [(''adj:node1'', valueEx 2 ''node1'' (Some [1, 2]) 0)]
      = ([''adj:node1'' \<mapsto> valueEx 2 ''node1'' (Some [1, 2]) 0],
         [''adj:node1'' \<mapsto> valueEx 2 ''node1'' (Some [1, 2]) 0])"
    using mergeKeyValues_idempotent
      [where kvStore = "[''adj:node1'' \<mapsto> valueEx 1 ''node1'' (Some [1]) 3]"
         and k = "''adj:node1''" and filters = None and ttlThreshold = 0
         and v_local = "valueEx 1 ''node1'' (Some [1]) 3"
         and v_in = "valueEx 2 ''node1'' (Some [1, 2]) 0",
       THEN conjunct2, THEN conjunct2, THEN conjunct1]
    by (simp add: valueEx_def)
  have t: "mergeKeyValues None 0 [''adj:node1'' \<mapsto> (valueEx 1 ''node1'' (Some [1]) 3)\<lparr>hash := Some 9\<rparr>]
        [(''adj:node1'', (valueEx 1 ''node1'' None 5)\<lparr>hash := Some 9\<rparr>)]
      = ([''adj:node1'' \<mapsto> (valueEx 1 ''node1'' (Some [1]) 5)\<lparr>hash := Some 9\<rparr>], Map.empty)"
    using mergeKeyValues_idempotent
      [where kvStore = "[''adj:node1'' \<mapsto> (valueEx 1 ''node1'' (Some [1]) 3)\<lparr>hash := Some 9\<rparr>]"
         and k = "''adj:node1''" and filters = None and ttlThreshold = 0
         and v_local = "(valueEx 1 ''node1'' (Some [1]) 3)\<lparr>hash := Some 9\<rparr>"
         and v_in = "(valueEx 1 ''node1'' None 5)\<lparr>hash := Some 9\<rparr>",
       THEN conjunct2, THEN conjunct2, THEN conjunct2]
    by (simp add: valueEx_def word_sless_alt)
  show ?thesis using h d i n r t by blast
qed

section \<open>Properties of the long poll\<close>




























section \<open>Properties of the longest prefix match\<close>

lemma longestPrefixMatchLoop_char:
  "(longestPrefixMatchLoop inp rs best = None \<longleftrightarrow>
      best = None \<and> (\<forall>r \<in> set rs. \<not> prefixContains (fst r) inp))
   \<and> (\<forall>p. longestPrefixMatchLoop inp rs best = Some p \<longrightarrow>
         (best = Some p \<or> p \<in> fst ` set rs \<and> prefixContains p inp)
         \<and> (\<forall>b. best = Some b \<longrightarrow> prefixLength b \<le> prefixLength p)
         \<and> (\<forall>r \<in> set rs. prefixContains (fst r) inp \<longrightarrow> prefixLength (fst r) \<le> prefixLength p))"
proof (induction rs arbitrary: best)
  case Nil
  show ?case by auto
next
  case (Cons route rest)
  show ?case
  proof (cases "prefixContains (fst route) inp
         \<and> (case best of None \<Rightarrow> True | Some m \<Rightarrow> prefixLength m < prefixLength (fst route))")
    case True
    then have e: "longestPrefixMatchLoop inp (route # rest) best
               = longestPrefixMatchLoop inp rest (Some (fst route))" by simp
    show ?thesis
      unfolding e using Cons.IH [of "Some (fst route)"] True
      by (cases best) (auto simp: less_imp_le dest: order_trans)
  next
    case False
    then have e: "longestPrefixMatchLoop inp (route # rest) best
               = longestPrefixMatchLoop inp rest best" by auto
    show ?thesis
      unfolding e using Cons.IH [of best] False
      by (cases best) (auto simp: not_less dest: order_trans)
  qed
qed

text \<open>
  Claim C9. For every unicast route table and every input network,
  \<open>longestPrefixMatch\<close> returns none exactly when no prefix of the table contains the
  input; and when it returns a prefix, that prefix is in the table, contains the input
  (its length is no longer than the input's and the leading bits agree), and no prefix
  of the table that contains the input is longer.
\<close>

theorem longestPrefixMatch_longest_containing:
  "(longestPrefixMatch inp routes = None \<longleftrightarrow>
      (\<forall>r \<in> set routes. \<not> prefixContains (fst r) inp))
   \<and> (\<forall>p. longestPrefixMatch inp routes = Some p \<longrightarrow>
         p \<in> fst ` set routes \<and> prefixContains p inp
         \<and> (\<forall>r \<in> set routes. prefixContains (fst r) inp \<longrightarrow>
               prefixLength (fst r) \<le> prefixLength p))"
  using longestPrefixMatchLoop_char [of inp routes None]
  by (simp add: longestPrefixMatch_def)

theorem longestPrefixMatch_longest_containing_witness:
  "longestPrefixMatch ([192, 168, 0, 0], 18) unicastRoutesEx = Some (toIpPrefix [192, 168, 0, 0] 16)
   \<and> prefixContains (toIpPrefix [192, 168, 0, 0] 16) ([192, 168, 0, 0], 18)
   \<and> \<not> prefixContains (toIpPrefix [192, 168, 0, 0] 20) ([192, 168, 0, 0], 18)
   \<and> longestPrefixMatch ([192, 168, 20, 19], 32) unicastRoutesEx = Some (toIpPrefix [192, 168, 20, 16] 28)
   \<and> longestPrefixMatch ([192, 168, 0, 0], 14) unicastRoutesEx = None
   \<and> \<not> prefixContains (toIpPrefix [192, 168, 0, 0] 16) ([192, 168, 0, 0], 14)"
proof -
  have e: "longestPrefixMatch ([192, 168, 0, 0], 18) unicastRoutesEx = Some (toIpPrefix [192, 168, 0, 0] 16)"
    "longestPrefixMatch ([192, 168, 20, 19], 32) unicastRoutesEx = Some (toIpPrefix [192, 168, 20, 16] 28)"
    "longestPrefixMatch ([192, 168, 0, 0], 14) unicastRoutesEx = None"
    "\<not> prefixContains (toIpPrefix [192, 168, 0, 0] 20) ([192, 168, 0, 0], 18)"
    by code_simp+
  show ?thesis
    using e
      longestPrefixMatch_longest_containing [of "([192, 168, 0, 0], 18)" unicastRoutesEx]
      longestPrefixMatch_longest_containing [of "([192, 168, 0, 0], 14)" unicastRoutesEx]
    by (simp add: unicastRoutesEx_def)
qed

end
